theory Spec2Isabelle
  imports Main "HOL-Library.Sublist"
begin

section \<open>Embedding of \<open>pf_bf_search.py\<close>\<close>

text \<open>
  Python integers are unbounded, so every number of the program is an \<open>int\<close>.
  The module-level list \<open>facts\<close> is the only mutable state; each function that reads or
  extends it takes the table and returns the table it leaves behind.

  A call either raises, returns, or runs forever. A raise is \<open>Inl\<close>, a return is \<open>Inr\<close>,
  and a call that never returns is \<open>None\<close>.
\<close>

datatype error = IndexError | ValueError

type_synonym 'a result = "(error + 'a) option"

definition returns :: "'a \<Rightarrow> 'a result" where
  "returns a = Some (Inr a)"

definition raises :: "error \<Rightarrow> 'a result" where
  "raises e = Some (Inl e)"

definition bind_result :: "'a result \<Rightarrow> ('a \<Rightarrow> 'b result) \<Rightarrow> 'b result" where
  "bind_result m f = (case m of None \<Rightarrow> None | Some (Inl e) \<Rightarrow> Some (Inl e) | Some (Inr a) \<Rightarrow> f a)"

definition map_result :: "('a \<Rightarrow> 'b) \<Rightarrow> 'a result \<Rightarrow> 'b result" where
  "map_result f m = bind_result m (\<lambda>a. returns (f a))"

subsection \<open>The factorial cache\<close>

text \<open>\<open>facts: List[int] = [1, 1]\<close>, the table a fresh process starts with.\<close>

definition facts_init :: "int list" where
  "facts_init = [1, 1]"

text \<open>
  \<open>xs[i]\<close> of Python: a negative index counts from the end, an index out of range raises
  \<open>IndexError\<close>.
\<close>

definition py_index :: "int list \<Rightarrow> int \<Rightarrow> error + int" where
  "py_index xs i =
     (let len = int (length xs); j = (if i < 0 then len + i else i)
      in if 0 \<le> j \<and> j < len then Inr (xs ! nat j) else Inl IndexError)"

text \<open>
  \<open>extend_factorials_until_ge\<close>: \<open>while facts[-1] < x: facts.append(facts[-1] * len(facts))\<close>.
  On a table that does not grow (one ending in \<open>0\<close>, say) the loop never ends, so the
  function is partial.
\<close>

partial_function (option) extend_factorials_until_ge :: "int list \<Rightarrow> int \<Rightarrow> (error + int list) option" where
  "extend_factorials_until_ge facts x =
     (case py_index facts (- 1) of
        Inl e \<Rightarrow> Some (Inl e)
      | Inr v \<Rightarrow>
          if v < x then extend_factorials_until_ge (facts @ [v * int (length facts)]) x
          else Some (Inr facts))"

declare extend_factorials_until_ge.simps [code]

text \<open>The binary search loop of \<open>factorial_index_of\<close>, on the bounds \<open>lo\<close> and \<open>hi\<close>.\<close>

function bsearch :: "int list \<Rightarrow> int \<Rightarrow> int \<Rightarrow> int \<Rightarrow> error + (bool \<times> int option)" where
  "bsearch facts x lo hi =
     (if lo \<le> hi then
        (case py_index facts ((lo + hi) div 2) of
           Inl e \<Rightarrow> Inl e
         | Inr v \<Rightarrow>
             if v = x then Inr (True, Some ((lo + hi) div 2))
             else if v < x then bsearch facts x ((lo + hi) div 2 + 1) hi
             else bsearch facts x lo ((lo + hi) div 2 - 1))
      else Inr (False, None))"
  by pat_completeness auto
termination
  by (relation "measure (\<lambda>(facts, x, lo, hi). nat (hi - lo + 1))") auto

definition factorial_index_of :: "int list \<Rightarrow> int \<Rightarrow> ((bool \<times> int option) \<times> int list) result" where
  "factorial_index_of facts x =
     (if x < 1 then returns ((False, None), facts)
      else bind_result (extend_factorials_until_ge facts x) (\<lambda>facts.
        case bsearch facts x 0 (int (length facts) - 1) of
          Inl e \<Rightarrow> raises e
        | Inr res \<Rightarrow> returns (res, facts)))"

definition is_factorial :: "int list \<Rightarrow> int \<Rightarrow> ((bool \<times> int option) \<times> int list) result" where
  "is_factorial facts x = factorial_index_of facts x"

definition n_is_factorial :: "int list \<Rightarrow> int \<Rightarrow> ((bool \<times> int option) \<times> int list) result" where
  "n_is_factorial facts n = factorial_index_of facts n"

subsection \<open>Records\<close>

text \<open>
  The dataclasses \<open>PFRecord\<close> and \<open>BFRecord\<close>, with fields \<open>n\<close>, \<open>r\<close>, \<open>c\<close> and \<open>cls\<close>;
  the field names carry a prefix here, since a field name is a constant.
\<close>

record PFRecord =
  pf_n :: int
  pf_r :: int
  pf_c :: int
  pf_cls :: string

record BFRecord =
  bf_n :: int
  bf_r :: int
  bf_c :: int
  bf_cls :: string

subsection \<open>Classification helpers\<close>

definition is_pf_trivial :: "int list \<Rightarrow> int \<Rightarrow> int \<Rightarrow> int \<Rightarrow> (bool \<times> int list) result" where
  "is_pf_trivial facts n r c =
     (if r = 0 \<or> r = n - 1 \<or> r = n then returns (True, facts)
      else if r = 1 then
        bind_result (n_is_factorial facts n) (\<lambda>((ok, t), facts).
          if ok then returns (True, facts) else returns (False, facts))
      else returns (False, facts))"

definition is_pf_F3 :: "int list \<Rightarrow> int \<Rightarrow> int \<Rightarrow> int \<Rightarrow> (bool \<times> int list) result" where
  "is_pf_F3 facts n r c =
     bind_result (n_is_factorial facts n) (\<lambda>((ok, t), facts).
       case t of
         None \<Rightarrow> returns (False, facts)
       | Some t \<Rightarrow>
           if \<not> ok \<or> t < 3 then returns (False, facts)
           else returns (r = n - t \<and> c = n - 1, facts))"

definition is_bf_trivial :: "int list \<Rightarrow> int \<Rightarrow> int \<Rightarrow> int \<Rightarrow> (bool \<times> int list) result" where
  "is_bf_trivial facts n r c =
     (if r = 0 \<or> r = n then returns (True, facts)
      else if r = 1 \<or> r = n - 1 then
        bind_result (n_is_factorial facts n) (\<lambda>((ok, t), facts).
          if ok then returns (True, facts) else returns (False, facts))
      else returns (False, facts))"

subsection \<open>Search functions\<close>

text \<open>
  One iteration of the inner loop of \<open>search_pf\<close>, on the loop state
  \<open>(facts, prod, out)\<close>. A \<open>continue\<close> returns the state as it is.
\<close>

definition search_pf_body ::
  "bool \<Rightarrow> bool \<Rightarrow> int \<Rightarrow> int \<Rightarrow> int list \<times> int \<times> PFRecord list \<Rightarrow> (int list \<times> int \<times> PFRecord list) result" where
  "search_pf_body include_trivial include_pf_f3 n r st =
     (case st of (facts, prod0, out) \<Rightarrow>
      let prod = (if r > 0 then prod0 * (n - (r - 1)) else prod0) in
      bind_result (is_factorial facts prod) (\<lambda>((ok, c), facts).
        case c of
          None \<Rightarrow> returns (facts, prod, out)
        | Some c \<Rightarrow>
            if \<not> ok then returns (facts, prod, out)
            else bind_result (is_pf_trivial facts n r c) (\<lambda>(triv, facts).
              if triv then
                returns (facts, prod,
                  if include_trivial
                  then out @ [\<lparr>pf_n = n, pf_r = r, pf_c = c, pf_cls = ''trivial''\<rparr>]
                  else out)
              else bind_result (is_pf_F3 facts n r c) (\<lambda>(f3, facts).
                if f3 then
                  returns (facts, prod,
                    if include_pf_f3
                    then out @ [\<lparr>pf_n = n, pf_r = r, pf_c = c, pf_cls = ''PF_F3''\<rparr>]
                    else out)
                else
                  returns (facts, prod,
                    out @ [\<lparr>pf_n = n, pf_r = r, pf_c = c, pf_cls = ''exceptional''\<rparr>])))))"

text \<open>\<open>for r in range(0, n + 1)\<close>, over the values of \<open>r\<close> still to come.\<close>

fun search_pf_inner ::
  "bool \<Rightarrow> bool \<Rightarrow> int \<Rightarrow> int list \<Rightarrow> int list \<times> int \<times> PFRecord list \<Rightarrow> (int list \<times> int \<times> PFRecord list) result" where
  "search_pf_inner include_trivial include_pf_f3 n [] st = returns st"
| "search_pf_inner include_trivial include_pf_f3 n (r # rs) st =
     bind_result (search_pf_body include_trivial include_pf_f3 n r st)
       (search_pf_inner include_trivial include_pf_f3 n rs)"

text \<open>\<open>for n in range(0, n_max + 1)\<close>, on the state \<open>(facts, out)\<close>; \<open>prod = 1\<close> at each \<open>n\<close>.\<close>

fun search_pf_outer ::
  "bool \<Rightarrow> bool \<Rightarrow> int list \<Rightarrow> int list \<times> PFRecord list \<Rightarrow> (int list \<times> PFRecord list) result" where
  "search_pf_outer include_trivial include_pf_f3 [] st = returns st"
| "search_pf_outer include_trivial include_pf_f3 (n # ns) st =
     (case st of (facts, out) \<Rightarrow>
      bind_result (search_pf_inner include_trivial include_pf_f3 n [0..n] (facts, 1, out))
        (\<lambda>(facts, prod, out). search_pf_outer include_trivial include_pf_f3 ns (facts, out)))"

text \<open>\<open>search_pf\<close> returns the list \<open>out\<close>; the table it leaves in \<open>facts\<close> comes with it.\<close>

definition search_pf :: "int list \<Rightarrow> int \<Rightarrow> bool \<Rightarrow> bool \<Rightarrow> (PFRecord list \<times> int list) result" where
  "search_pf facts n_max include_trivial include_pf_f3 =
     map_result (\<lambda>(facts, out). (out, facts))
       (search_pf_outer include_trivial include_pf_f3 [0..n_max] (facts, []))"

text \<open>
  \<open>math.comb(n, r)\<close> of the Python library: the binomial coefficient, \<open>ValueError\<close> on a
  negative argument.
\<close>

definition math_comb :: "int \<Rightarrow> int \<Rightarrow> error + int" where
  "math_comb n r = (if n < 0 \<or> r < 0 then Inl ValueError else Inr (int (nat n choose nat r)))"

definition search_bf_body ::
  "bool \<Rightarrow> int \<Rightarrow> int \<Rightarrow> int list \<times> BFRecord list \<Rightarrow> (int list \<times> BFRecord list) result" where
  "search_bf_body include_trivial n r st =
     (case st of (facts, out) \<Rightarrow>
      case math_comb n r of
        Inl e \<Rightarrow> raises e
      | Inr val \<Rightarrow>
          bind_result (is_factorial facts val) (\<lambda>((ok, c), facts).
            case c of
              None \<Rightarrow> returns (facts, out)
            | Some c \<Rightarrow>
                if \<not> ok then returns (facts, out)
                else bind_result (is_bf_trivial facts n r c) (\<lambda>(triv, facts).
                  if triv then
                    returns (facts,
                      if include_trivial
                      then out @ [\<lparr>bf_n = n, bf_r = r, bf_c = c, bf_cls = ''trivial''\<rparr>]
                      else out)
                  else
                    returns (facts,
                      out @ [\<lparr>bf_n = n, bf_r = r, bf_c = c, bf_cls = ''exceptional''\<rparr>]))))"

fun search_bf_inner ::
  "bool \<Rightarrow> int \<Rightarrow> int list \<Rightarrow> int list \<times> BFRecord list \<Rightarrow> (int list \<times> BFRecord list) result" where
  "search_bf_inner include_trivial n [] st = returns st"
| "search_bf_inner include_trivial n (r # rs) st =
     bind_result (search_bf_body include_trivial n r st) (search_bf_inner include_trivial n rs)"

fun search_bf_outer ::
  "bool \<Rightarrow> int list \<Rightarrow> int list \<times> BFRecord list \<Rightarrow> (int list \<times> BFRecord list) result" where
  "search_bf_outer include_trivial [] st = returns st"
| "search_bf_outer include_trivial (n # ns) st =
     bind_result (search_bf_inner include_trivial n [0..n] st) (search_bf_outer include_trivial ns)"

definition search_bf :: "int list \<Rightarrow> int \<Rightarrow> bool \<Rightarrow> (BFRecord list \<times> int list) result" where
  "search_bf facts n_max include_trivial =
     map_result (\<lambda>(facts, out). (out, facts))
       (search_bf_outer include_trivial [0..n_max] (facts, []))"

subsection \<open>Tables the program can hold\<close>

text \<open>
  The table starts as \<open>[1, 1]\<close> and is written only by \<open>extend_factorials_until_ge\<close>, so
  the tables a process can hold are those a sequence of extension calls leaves.
\<close>

inductive reachable :: "int list \<Rightarrow> bool" where
  init: "reachable facts_init"
| step: "reachable facts \<Longrightarrow> extend_factorials_until_ge facts x = Some (Inr facts') \<Longrightarrow> reachable facts'"

code_pred reachable .

subsection \<open>The true factorial sequence\<close>

text \<open>The first \<open>m\<close> factorials, \<open>0!\<close> up to \<open>(m - 1)!\<close>; used to state what the table holds.\<close>

definition ftable :: "nat \<Rightarrow> int list" where
  "ftable m = map (\<lambda>k. fact k) [0..<m]"

subsection \<open>What the classifiers and the loops compute\<close>

text \<open>
  The classifiers read the table only to ask whether \<open>n\<close> is a factorial, so on a table
  the program can hold their answers are the following values, whatever the table.
\<close>

definition is_fact :: "int \<Rightarrow> bool" where
  "is_fact x = (\<exists>j. x = fact j)"

definition pf_trivial_val :: "int \<Rightarrow> int \<Rightarrow> bool" where
  "pf_trivial_val n r = (r = 0 \<or> r = n - 1 \<or> r = n \<or> (r = 1 \<and> is_fact n))"

definition pf_F3_val :: "int \<Rightarrow> int \<Rightarrow> int \<Rightarrow> bool" where
  "pf_F3_val n r c = (\<exists>t\<ge>3. n = fact t \<and> r = n - int t \<and> c = n - 1)"

definition bf_trivial_val :: "int \<Rightarrow> int \<Rightarrow> bool" where
  "bf_trivial_val n r = (r = 0 \<or> r = n \<or> ((r = 1 \<or> r = n - 1) \<and> is_fact n))"

text \<open>The records one iteration appends when the value tested is \<open>c!\<close>.\<close>

definition pf_emit :: "bool \<Rightarrow> bool \<Rightarrow> int \<Rightarrow> int \<Rightarrow> int \<Rightarrow> PFRecord list" where
  "pf_emit include_trivial include_pf_f3 n r c =
     (if pf_trivial_val n r then
        (if include_trivial then [\<lparr>pf_n = n, pf_r = r, pf_c = c, pf_cls = ''trivial''\<rparr>] else [])
      else if pf_F3_val n r c then
        (if include_pf_f3 then [\<lparr>pf_n = n, pf_r = r, pf_c = c, pf_cls = ''PF_F3''\<rparr>] else [])
      else [\<lparr>pf_n = n, pf_r = r, pf_c = c, pf_cls = ''exceptional''\<rparr>])"

definition bf_emit :: "bool \<Rightarrow> int \<Rightarrow> int \<Rightarrow> int \<Rightarrow> BFRecord list" where
  "bf_emit include_trivial n r c =
     (if bf_trivial_val n r then
        (if include_trivial then [\<lparr>bf_n = n, bf_r = r, bf_c = c, bf_cls = ''trivial''\<rparr>] else [])
      else [\<lparr>bf_n = n, bf_r = r, bf_c = c, bf_cls = ''exceptional''\<rparr>])"

text \<open>The running product of \<open>search_pf\<close> after the update at \<open>r\<close>.\<close>

definition pf_prod :: "int \<Rightarrow> int \<Rightarrow> int \<Rightarrow> int" where
  "pf_prod n r prod0 = (if r > 0 then prod0 * (n - (r - 1)) else prod0)"

text \<open>
  The records a run of the inner loop appends, as a relation: the index reported for the
  value \<open>1\<close> is not fixed, so the list is determined only up to that index.
\<close>

inductive pf_trace :: "bool \<Rightarrow> bool \<Rightarrow> int \<Rightarrow> int list \<Rightarrow> int \<Rightarrow> PFRecord list \<Rightarrow> bool" where
  pf_done: "pf_trace it f3 n [] prod0 []"
| pf_skip: "\<not> is_fact (pf_prod n r prod0) \<Longrightarrow> pf_trace it f3 n rs (pf_prod n r prod0) recs \<Longrightarrow>
     pf_trace it f3 n (r # rs) prod0 recs"
| pf_hit: "pf_prod n r prod0 = fact j \<Longrightarrow> pf_trace it f3 n rs (pf_prod n r prod0) recs \<Longrightarrow>
     pf_trace it f3 n (r # rs) prod0 (pf_emit it f3 n r (int j) @ recs)"

inductive pf_traces :: "bool \<Rightarrow> bool \<Rightarrow> int list \<Rightarrow> PFRecord list \<Rightarrow> bool" where
  pfs_done: "pf_traces it f3 [] []"
| pfs_step: "pf_trace it f3 n [0..n] 1 recs \<Longrightarrow> pf_traces it f3 ns recs' \<Longrightarrow>
     pf_traces it f3 (n # ns) (recs @ recs')"

inductive bf_trace :: "bool \<Rightarrow> int \<Rightarrow> int list \<Rightarrow> BFRecord list \<Rightarrow> bool" where
  bf_done: "bf_trace it n [] []"
| bf_skip: "\<not> is_fact (int (nat n choose nat r)) \<Longrightarrow> bf_trace it n rs recs \<Longrightarrow>
     bf_trace it n (r # rs) recs"
| bf_hit: "int (nat n choose nat r) = fact j \<Longrightarrow> bf_trace it n rs recs \<Longrightarrow>
     bf_trace it n (r # rs) (bf_emit it n r (int j) @ recs)"

inductive bf_traces :: "bool \<Rightarrow> int list \<Rightarrow> BFRecord list \<Rightarrow> bool" where
  bfs_done: "bf_traces it [] []"
| bfs_step: "bf_trace it n [0..n] recs \<Longrightarrow> bf_traces it ns recs' \<Longrightarrow>
     bf_traces it (n # ns) (recs @ recs')"

text \<open>
  Two records that agree, or that are both tagged \<open>trivial\<close>, have the same \<open>n\<close> and \<open>r\<close>,
  and each carry \<open>0\<close> or \<open>1\<close> as \<open>c\<close>.
\<close>

definition pf_sim :: "PFRecord \<Rightarrow> PFRecord \<Rightarrow> bool" where
  "pf_sim a b =
     (a = b \<or> (pf_n a = pf_n b \<and> pf_r a = pf_r b \<and> pf_cls a = ''trivial'' \<and> pf_cls b = ''trivial'' \<and>
        (pf_c a = 0 \<or> pf_c a = 1) \<and> (pf_c b = 0 \<or> pf_c b = 1)))"

definition bf_sim :: "BFRecord \<Rightarrow> BFRecord \<Rightarrow> bool" where
  "bf_sim a b =
     (a = b \<or> (bf_n a = bf_n b \<and> bf_r a = bf_r b \<and> bf_cls a = ''trivial'' \<and> bf_cls b = ''trivial'' \<and>
        (bf_c a = 0 \<or> bf_c a = 1) \<and> (bf_c b = 0 \<or> bf_c b = 1)))"

section \<open>The factorial table\<close>

lemma py_index_last: "facts \<noteq> [] \<Longrightarrow> py_index facts (- 1) = Inr (last facts)"
  by (cases facts rule: rev_cases) (simp_all add: py_index_def Let_def nat_add_distrib)

lemma py_index_nonneg: "0 \<le> i \<Longrightarrow> nat i < length facts \<Longrightarrow> py_index facts i = Inr (facts ! nat i)"
  by (simp add: py_index_def Let_def)

lemma length_ftable [simp]: "length (ftable m) = m"
  by (simp add: ftable_def)

lemma nth_ftable [simp]: "k < m \<Longrightarrow> ftable m ! k = fact k"
  by (simp add: ftable_def)

lemma ftable_Suc: "ftable (Suc m) = ftable m @ [fact m]"
  by (simp add: ftable_def)

lemma ftable_2: "ftable 2 = facts_init"
  by (simp add: ftable_def facts_init_def numeral_2_eq_2)

lemma last_ftable: "last (ftable (Suc m)) = fact m"
  by (simp add: ftable_Suc)

lemma extend_ftable_step:
  "extend_factorials_until_ge (ftable (Suc m)) x =
     (if fact m < x then extend_factorials_until_ge (ftable (Suc (Suc m))) x
      else Some (Inr (ftable (Suc m))))"
proof -
  have ne: "ftable (Suc m) \<noteq> []" by (simp add: ftable_Suc)
  have app: "ftable (Suc m) @ [fact m * (1 + int m)] = ftable (Suc (Suc m))"
    by (simp add: ftable_Suc[of "Suc m"] algebra_simps)
  show ?thesis
    by (subst extend_factorials_until_ge.simps)
       (simp add: py_index_last[OF ne] last_ftable app)
qed

lemma int_le_fact: "int m \<le> fact m"
  by (metis fact_ge_self of_nat_fact of_nat_le_iff)

lemma extend_ftable:
  "\<exists>m'. m \<le> m' \<and> extend_factorials_until_ge (ftable (Suc m)) x = Some (Inr (ftable (Suc m')))
        \<and> x \<le> fact m' \<and> (if x \<le> fact m then m' = m else fact (m' - 1) < x)"
proof (induction "nat x - m" arbitrary: m rule: less_induct)
  case less
  show ?case
  proof (cases "fact m < x")
    case False
    then show ?thesis by (subst extend_ftable_step) auto
  next
    case True
    have "int m < x" using True int_le_fact[of m] by linarith
    then have "nat x - Suc m < nat x - m" by linarith
    from less[OF this] obtain m' where m': "Suc m \<le> m'"
      "extend_factorials_until_ge (ftable (Suc (Suc m))) x = Some (Inr (ftable (Suc m')))"
      "x \<le> fact m'" "if x \<le> fact (Suc m) then m' = Suc m else fact (m' - 1) < x"
      by blast
    have "fact (m' - 1) < x"
      using m'(4) True by (auto split: if_splits)
    with m' True show ?thesis
      by (subst extend_ftable_step) (auto intro!: exI[of _ m'])
  qed
qed

lemma reachable_ftable: "reachable facts \<Longrightarrow> \<exists>m\<ge>1. facts = ftable (Suc m)"
proof (induction rule: reachable.induct)
  case init
  show ?case using ftable_2 by (intro exI[of _ 1]) (simp add: numeral_2_eq_2)
next
  case (step facts x facts')
  then obtain m where m: "1 \<le> m" "facts = ftable (Suc m)" by blast
  from extend_ftable[of m x] obtain m' where "m \<le> m'"
     "extend_factorials_until_ge (ftable (Suc m)) x = Some (Inr (ftable (Suc m')))" by blast
  with m step.hyps(2) show ?case by (intro exI[of _ m']) auto
qed

lemma ftable_reachable: "1 \<le> m \<Longrightarrow> reachable (ftable (Suc m))"
proof (induction m rule: nat_induct_at_least)
  case base
  show ?case using reachable.init ftable_2 by (simp add: numeral_2_eq_2)
next
  case (Suc m)
  have lt: "(fact m :: int) < fact (Suc m)" using Suc.hyps by (simp add: fact_less_mono)
  have "extend_factorials_until_ge (ftable (Suc m)) (fact (Suc m)) = Some (Inr (ftable (Suc (Suc m))))"
    using lt by (simp add: extend_ftable_step[of m] extend_ftable_step[of "Suc m"] del: fact_Suc)
  from reachable.step[OF Suc.IH this] show ?case .
qed

section \<open>Binary search on a sorted table\<close>

declare bsearch.simps [simp del]

lemma sorted_ftable: "sorted (ftable m)"
  by (simp add: ftable_def sorted_map sorted_wrt_iff_nth_less fact_mono)

lemma fact_eq_int: "(fact a :: int) = fact b \<Longrightarrow> 2 \<le> a \<Longrightarrow> a = b"
proof (rule ccontr)
  assume eq: "(fact a :: int) = fact b" and a: "2 \<le> a" and ne: "a \<noteq> b"
  have two: "(2::int) \<le> fact a"
    using fact_mono[of 2 a, where 'a = int] a by (simp add: numeral_2_eq_2)
  show False
  proof (cases "a < b")
    case True
    then have "(fact a :: int) < fact b" using a by (intro fact_less_mono) auto
    with eq show False by simp
  next
    case False
    with ne have ba: "b < a" by simp
    show False
    proof (cases "b = 0")
      case True
      with eq two show False by simp
    next
      case False
      then have "(fact b :: int) < fact a" using ba by (intro fact_less_mono) auto
      with eq show False by simp
    qed
  qed
qed

lemma bsearch_sorted:
  "sorted facts \<Longrightarrow> 0 \<le> lo \<Longrightarrow> hi < int (length facts) \<Longrightarrow>
   (if \<exists>i. lo \<le> i \<and> i \<le> hi \<and> facts ! nat i = x
    then \<exists>i. lo \<le> i \<and> i \<le> hi \<and> facts ! nat i = x \<and> bsearch facts x lo hi = Inr (True, Some i)
    else bsearch facts x lo hi = Inr (False, None))"
proof (induction facts x lo hi rule: bsearch.induct)
  case (1 facts x lo hi)
  show ?case
  proof (cases "lo \<le> hi")
    case False
    then show ?thesis by (subst bsearch.simps) auto
  next
    case True
    define mid where "mid = (lo + hi) div 2"
    have mid: "lo \<le> mid" "mid \<le> hi" using True by (auto simp: mid_def)
    have mid0: "0 \<le> mid" "nat mid < length facts" using mid "1.prems" by auto
    define v where "v = facts ! nat mid"
    have idx: "py_index facts ((lo + hi) div 2) = Inr v"
      using py_index_nonneg[OF mid0] by (simp add: mid_def v_def)
    consider (eq) "v = x" | (lt) "v < x" | (gt) "x < v" by linarith
    then show ?thesis
    proof cases
      case eq
      have "bsearch facts x lo hi = Inr (True, Some mid)"
        using True idx eq by (subst bsearch.simps) (simp add: mid_def)
      moreover have "facts ! nat mid = x" using eq v_def by simp
      ultimately show ?thesis using mid by auto
    next
      case lt
      have unf: "bsearch facts x lo hi = bsearch facts x (mid + 1) hi"
        using True idx lt by (subst bsearch.simps) (simp add: mid_def)
      have below: "facts ! nat i \<noteq> x" if "lo \<le> i" "i \<le> mid" for i
      proof -
        have "nat i \<le> nat mid" using that by simp
        then have "facts ! nat i \<le> facts ! nat mid"
          using "1.prems"(1) mid0 by (simp add: sorted_iff_nth_mono)
        with lt v_def show ?thesis by simp
      qed
      have iff: "(\<exists>i. lo \<le> i \<and> i \<le> hi \<and> facts ! nat i = x) = (\<exists>i. mid + 1 \<le> i \<and> i \<le> hi \<and> facts ! nat i = x)"
        using below mid by (metis add1_zle_eq linorder_not_le order_trans zle_add1_eq_le less_le_not_le)
      have IH: "if \<exists>i. mid + 1 \<le> i \<and> i \<le> hi \<and> facts ! nat i = x
         then \<exists>i. mid + 1 \<le> i \<and> i \<le> hi \<and> facts ! nat i = x \<and> bsearch facts x (mid + 1) hi = Inr (True, Some i)
         else bsearch facts x (mid + 1) hi = Inr (False, None)"
      proof -
        have ne: "v \<noteq> x" using lt by auto
        have lb: "0 \<le> (lo + hi) div 2 + 1" using mid0 by (simp add: mid_def)
        show ?thesis
          using "1.IH"(1)[OF True idx ne lt "1.prems"(1) lb "1.prems"(3)] unfolding mid_def .
      qed
      show ?thesis
        unfolding iff unf using IH mid by (auto split: if_splits)
    next
      case gt
      have unf: "bsearch facts x lo hi = bsearch facts x lo (mid - 1)"
        using True idx gt by (subst bsearch.simps) (simp add: mid_def)
      have above: "facts ! nat i \<noteq> x" if "mid \<le> i" "i \<le> hi" for i
      proof -
        have "nat mid \<le> nat i" "nat i < length facts" using that "1.prems" mid0 by auto
        then have "facts ! nat mid \<le> facts ! nat i"
          using "1.prems"(1) by (simp add: sorted_iff_nth_mono)
        with gt v_def show ?thesis by simp
      qed
      have iff: "(\<exists>i. lo \<le> i \<and> i \<le> hi \<and> facts ! nat i = x) = (\<exists>i. lo \<le> i \<and> i \<le> mid - 1 \<and> facts ! nat i = x)"
        using above mid by (smt (verit))
      have IH: "if \<exists>i. lo \<le> i \<and> i \<le> mid - 1 \<and> facts ! nat i = x
         then \<exists>i. lo \<le> i \<and> i \<le> mid - 1 \<and> facts ! nat i = x \<and> bsearch facts x lo (mid - 1) = Inr (True, Some i)
         else bsearch facts x lo (mid - 1) = Inr (False, None)"
      proof -
        have ne: "v \<noteq> x" "\<not> v < x" using gt by auto
        have hb: "(lo + hi) div 2 - 1 < int (length facts)" using mid "1.prems" by (simp add: mid_def)
        show ?thesis
          using "1.IH"(2)[OF True idx ne "1.prems"(1,2) hb] unfolding mid_def .
      qed
      show ?thesis
        unfolding iff unf using IH mid by (auto split: if_splits)
    qed
  qed
qed

section \<open>Factorial membership\<close>

lemma bind_returns [simp]: "bind_result (returns a) f = f a"
  by (simp add: bind_result_def returns_def)

lemma bind_Some_Inr [simp]: "bind_result (Some (Inr a)) f = f a"
  by (simp add: bind_result_def)

lemma prefix_ftable: "m \<le> m' \<Longrightarrow> prefix (ftable m) (ftable m')"
  unfolding ftable_def prefix_def
  by (metis le_add_diff_inverse map_append upt_add_eq_append zero_le)

lemma fact_le_imp_le: "(fact j :: int) \<le> fact m' \<Longrightarrow> 1 \<le> m' \<Longrightarrow> j \<le> m'"
proof (rule ccontr)
  assume le: "(fact j :: int) \<le> fact m'" and m': "1 \<le> m'" and "\<not> j \<le> m'"
  then have "m' < j" by simp
  then have "(fact m' :: int) < fact j" using m' by (intro fact_less_mono) auto
  with le show False by simp
qed

lemma factorial_index_of_ftable:
  assumes m: "1 \<le> m"
  shows "\<exists>m' ok k. m \<le> m' \<and>
           factorial_index_of (ftable (Suc m)) x = returns ((ok, k), ftable (Suc m')) \<and>
           (if \<exists>j. x = fact j then ok \<and> (\<exists>j. k = Some (int j) \<and> x = fact j) else \<not> ok \<and> k = None) \<and>
           (x \<le> fact m \<longrightarrow> m' = m)"
proof (cases "x < 1")
  case True
  have "x \<noteq> fact j" for j
    using True fact_ge_1[of j, where 'a = int] by linarith
  then show ?thesis using True
    by (intro exI[of _ m] exI[of _ False] exI[of _ None]) (simp add: factorial_index_of_def)
next
  case False
  from extend_ftable[of m x] obtain m' where m': "m \<le> m'"
    "extend_factorials_until_ge (ftable (Suc m)) x = Some (Inr (ftable (Suc m')))"
    "x \<le> fact m'" "if x \<le> fact m then m' = m else fact (m' - 1) < x" by blast
  have unf: "factorial_index_of (ftable (Suc m)) x =
      (case bsearch (ftable (Suc m')) x 0 (int m') of Inl e \<Rightarrow> raises e
       | Inr res \<Rightarrow> returns (res, ftable (Suc m')))"
    using False m'(2) by (simp add: factorial_index_of_def)
  have bs: "if \<exists>i. 0 \<le> i \<and> i \<le> int m' \<and> ftable (Suc m') ! nat i = x
    then \<exists>i. 0 \<le> i \<and> i \<le> int m' \<and> ftable (Suc m') ! nat i = x \<and> bsearch (ftable (Suc m')) x 0 (int m') = Inr (True, Some i)
    else bsearch (ftable (Suc m')) x 0 (int m') = Inr (False, None)"
    by (rule bsearch_sorted) (simp_all add: sorted_ftable)
  have iff: "(\<exists>i. 0 \<le> i \<and> i \<le> int m' \<and> ftable (Suc m') ! nat i = x) = (\<exists>j. x = fact j)"
  proof
    assume "\<exists>i. 0 \<le> i \<and> i \<le> int m' \<and> ftable (Suc m') ! nat i = x"
    then obtain i where "0 \<le> i" "i \<le> int m'" "ftable (Suc m') ! nat i = x" by blast
    then have "x = fact (nat i)" by (simp add: nat_le_iff)
    then show "\<exists>j. x = fact j" by blast
  next
    assume "\<exists>j. x = fact j"
    then obtain j where j: "x = fact j" by blast
    then have "j \<le> m'" using m'(3) m'(1) m fact_le_imp_le[of j m'] by simp
    then have "0 \<le> int j \<and> int j \<le> int m' \<and> ftable (Suc m') ! nat (int j) = x"
      using j by simp
    then show "\<exists>i. 0 \<le> i \<and> i \<le> int m' \<and> ftable (Suc m') ! nat i = x" by blast
  qed
  show ?thesis
  proof (cases "\<exists>j. x = fact j")
    case True
    with bs iff obtain i where i: "0 \<le> i" "i \<le> int m'" "ftable (Suc m') ! nat i = x"
      "bsearch (ftable (Suc m')) x 0 (int m') = Inr (True, Some i)" by auto
    have xi: "x = fact (nat i)" using i by (simp add: nat_le_iff)
    have "factorial_index_of (ftable (Suc m)) x = returns ((True, Some i), ftable (Suc m'))"
      using unf i(4) by simp
    moreover have "\<exists>j. Some i = Some (int j) \<and> x = fact j"
      using xi i(1) by (intro exI[of _ "nat i"]) simp
    ultimately show ?thesis using True m' 
      by (intro exI[of _ m'] exI[of _ True] exI[of _ "Some i"]) (auto split: if_splits)
  next
    case False
    with bs iff have "bsearch (ftable (Suc m')) x 0 (int m') = Inr (False, None)" by auto
    then have "factorial_index_of (ftable (Suc m)) x = returns ((False, None), ftable (Suc m'))"
      using unf by simp
    then show ?thesis using False m'
      by (intro exI[of _ m'] exI[of _ False] exI[of _ None]) (auto split: if_splits)
  qed
qed

lemma factorial_index_of_reachable:
  assumes "reachable facts"
  shows "\<exists>facts' ok k. reachable facts' \<and> prefix facts facts' \<and>
           factorial_index_of facts x = returns ((ok, k), facts') \<and>
           (if \<exists>j. x = fact j then ok \<and> (\<exists>j. k = Some (int j) \<and> x = fact j) else \<not> ok \<and> k = None)"
proof -
  from reachable_ftable[OF assms] obtain m where m: "1 \<le> m" "facts = ftable (Suc m)" by blast
  from factorial_index_of_ftable[OF m(1), of x] obtain m' ok k where r: "m \<le> m'"
    "factorial_index_of (ftable (Suc m)) x = returns ((ok, k), ftable (Suc m'))"
    "if \<exists>j. x = fact j then ok \<and> (\<exists>j. k = Some (int j) \<and> x = fact j) else \<not> ok \<and> k = None"
    by blast
  have "reachable (ftable (Suc m'))" using r(1) m(1) by (intro ftable_reachable) simp
  moreover have "prefix facts (ftable (Suc m'))" using m(2) r(1) by (simp add: prefix_ftable)
  ultimately show ?thesis using r(2,3) m(2) by blast
qed

lemma not_fact_between: "(fact m :: int) < x \<Longrightarrow> x < fact (Suc m) \<Longrightarrow> x \<noteq> fact k"
proof
  assume lo: "(fact m :: int) < x" and hi: "x < fact (Suc m)" and eq: "x = fact k"
  show False
  proof (cases "k \<le> m")
    case True
    then have "(fact k :: int) \<le> fact m" by (rule fact_mono)
    with lo eq show False by simp
  next
    case False
    then have "Suc m \<le> k" by simp
    then have "(fact (Suc m) :: int) \<le> fact k" by (rule fact_mono)
    with hi eq show False by simp
  qed
qed

lemma extend_facts_init_6: "extend_factorials_until_ge facts_init 6 = Some (Inr [1, 1, 2, 6])"
  by (simp add: extend_factorials_until_ge.simps facts_init_def py_index_def)

section \<open>The classifiers and the loop bodies on a reachable table\<close>

lemma n_is_factorial_reachable:
  assumes "reachable facts"
  shows "\<exists>facts' ok k. reachable facts' \<and> n_is_factorial facts x = returns ((ok, k), facts') \<and>
           (if is_fact x then ok \<and> (\<exists>j. k = Some (int j) \<and> x = fact j) else \<not> ok \<and> k = None)"
  using factorial_index_of_reachable[OF assms, of x]
  unfolding n_is_factorial_def is_fact_def by blast

lemma is_factorial_reachable:
  assumes "reachable facts"
  shows "\<exists>facts' ok k. reachable facts' \<and> is_factorial facts x = returns ((ok, k), facts') \<and>
           (if is_fact x then ok \<and> (\<exists>j. k = Some (int j) \<and> x = fact j) else \<not> ok \<and> k = None)"
  using factorial_index_of_reachable[OF assms, of x]
  unfolding is_factorial_def is_fact_def by blast

lemma is_pf_trivial_reachable:
  assumes "reachable facts"
  shows "\<exists>facts'. reachable facts' \<and> is_pf_trivial facts n r c = returns (pf_trivial_val n r, facts')"
proof (cases "r = 0 \<or> r = n - 1 \<or> r = n")
  case True
  then show ?thesis using assms by (auto simp: is_pf_trivial_def pf_trivial_val_def)
next
  case False
  show ?thesis
  proof (cases "r = 1")
    case r1: True
    from n_is_factorial_reachable[OF assms, of n] obtain facts' ok k where f:
      "reachable facts'" "n_is_factorial facts n = returns ((ok, k), facts')"
      "if is_fact n then ok \<and> (\<exists>j. k = Some (int j) \<and> n = fact j) else \<not> ok \<and> k = None" by blast
    have "ok = is_fact n" using f(3) by (auto split: if_splits)
    then have "is_pf_trivial facts n r c = returns (pf_trivial_val n r, facts')"
      using False r1 f(2) by (auto simp: is_pf_trivial_def pf_trivial_val_def)
    with f(1) show ?thesis by blast
  next
    case r1: False
    then show ?thesis using False assms by (auto simp: is_pf_trivial_def pf_trivial_val_def)
  qed
qed

lemma is_bf_trivial_reachable:
  assumes "reachable facts"
  shows "\<exists>facts'. reachable facts' \<and> is_bf_trivial facts n r c = returns (bf_trivial_val n r, facts')"
proof (cases "r = 0 \<or> r = n")
  case True
  then show ?thesis using assms by (auto simp: is_bf_trivial_def bf_trivial_val_def)
next
  case False
  show ?thesis
  proof (cases "r = 1 \<or> r = n - 1")
    case r1: True
    from n_is_factorial_reachable[OF assms, of n] obtain facts' ok k where f:
      "reachable facts'" "n_is_factorial facts n = returns ((ok, k), facts')"
      "if is_fact n then ok \<and> (\<exists>j. k = Some (int j) \<and> n = fact j) else \<not> ok \<and> k = None" by blast
    have "ok = is_fact n" using f(3) by (auto split: if_splits)
    then have "is_bf_trivial facts n r c = returns (bf_trivial_val n r, facts')"
      using False r1 f(2) by (auto simp: is_bf_trivial_def bf_trivial_val_def)
    with f(1) show ?thesis by blast
  next
    case r1: False
    then show ?thesis using False assms by (auto simp: is_bf_trivial_def bf_trivial_val_def)
  qed
qed

lemma is_pf_F3_reachable:
  assumes "reachable facts"
  shows "\<exists>facts'. reachable facts' \<and> is_pf_F3 facts n r c = returns (pf_F3_val n r c, facts')"
proof -
  from n_is_factorial_reachable[OF assms, of n] obtain facts' ok k where f:
    "reachable facts'" "n_is_factorial facts n = returns ((ok, k), facts')"
    "if is_fact n then ok \<and> (\<exists>j. k = Some (int j) \<and> n = fact j) else \<not> ok \<and> k = None" by blast
  show ?thesis
  proof (cases "is_fact n")
    case False
    then have "\<not> pf_F3_val n r c" by (auto simp: pf_F3_val_def is_fact_def)
    moreover have "is_pf_F3 facts n r c = returns (False, facts')"
      using False f(2,3) by (simp add: is_pf_F3_def)
    ultimately show ?thesis using f(1) by auto
  next
    case True
    with f(3) obtain j where j: "ok" "k = Some (int j)" "n = fact j" by auto
    have val: "pf_F3_val n r c = (3 \<le> j \<and> r = n - int j \<and> c = n - 1)"
    proof
      assume "pf_F3_val n r c"
      then obtain t where t: "3 \<le> t" "n = fact t" "r = n - int t" "c = n - 1"
        by (auto simp: pf_F3_val_def)
      have "t = j" using fact_eq_int[of t j] t(1,2) j(3) by simp
      with t show "3 \<le> j \<and> r = n - int j \<and> c = n - 1" by simp
    next
      assume "3 \<le> j \<and> r = n - int j \<and> c = n - 1"
      then show "pf_F3_val n r c" using j(3) by (auto simp: pf_F3_val_def)
    qed
    have "is_pf_F3 facts n r c = returns (3 \<le> j \<and> r = n - int j \<and> c = n - 1, facts')"
      using f(2) j(1,2) by (auto simp: is_pf_F3_def)
    with val f(1) show ?thesis by auto
  qed
qed

lemma search_pf_body_reachable:
  assumes "reachable facts"
  shows "\<exists>facts' em. reachable facts' \<and>
           search_pf_body it f3 n r (facts, prod0, out) = returns (facts', pf_prod n r prod0, out @ em) \<and>
           (if is_fact (pf_prod n r prod0) then \<exists>j. pf_prod n r prod0 = fact j \<and> em = pf_emit it f3 n r (int j)
            else em = [])"
proof -
  define p where "p = pf_prod n r prod0"
  from is_factorial_reachable[OF assms, of p] obtain facts1 ok k where f1:
    "reachable facts1" "is_factorial facts p = returns ((ok, k), facts1)"
    "if is_fact p then ok \<and> (\<exists>j. k = Some (int j) \<and> p = fact j) else \<not> ok \<and> k = None" by blast
  have pp: "(if r > 0 then prod0 * (n - (r - 1)) else prod0) = p"
    by (simp add: p_def pf_prod_def)
  have unf: "search_pf_body it f3 n r (facts, prod0, out) =
      (case k of None \<Rightarrow> returns (facts1, p, out)
       | Some c \<Rightarrow> if \<not> ok then returns (facts1, p, out)
          else bind_result (is_pf_trivial facts1 n r c) (\<lambda>(triv, facts).
              if triv then
                returns (facts, p,
                  if it
                  then out @ [\<lparr>pf_n = n, pf_r = r, pf_c = c, pf_cls = ''trivial''\<rparr>]
                  else out)
              else bind_result (is_pf_F3 facts n r c) (\<lambda>(f3', facts).
                if f3' then
                  returns (facts, p,
                    if f3
                    then out @ [\<lparr>pf_n = n, pf_r = r, pf_c = c, pf_cls = ''PF_F3''\<rparr>]
                    else out)
                else
                  returns (facts, p,
                    out @ [\<lparr>pf_n = n, pf_r = r, pf_c = c, pf_cls = ''exceptional''\<rparr>]))))"
    by (simp only: search_pf_body_def Let_def prod.case pp f1(2) bind_returns)
  show ?thesis
  proof (cases "is_fact p")
    case False
    then have "search_pf_body it f3 n r (facts, prod0, out) = returns (facts1, p, out @ [])"
      using unf f1(3) by simp
    with f1(1) False show ?thesis unfolding p_def by auto
  next
    case True
    with f1(3) obtain j where j: "ok" "k = Some (int j)" "p = fact j" by auto
    from is_pf_trivial_reachable[OF f1(1), of n r "int j"] obtain facts2 where f2:
      "reachable facts2" "is_pf_trivial facts1 n r (int j) = returns (pf_trivial_val n r, facts2)" by blast
    from is_pf_F3_reachable[OF f2(1), of n r "int j"] obtain facts3 where f3:
      "reachable facts3" "is_pf_F3 facts2 n r (int j) = returns (pf_F3_val n r (int j), facts3)" by blast
    have "\<exists>facts'. reachable facts' \<and>
        search_pf_body it f3 n r (facts, prod0, out) = returns (facts', p, out @ pf_emit it f3 n r (int j))"
    proof (cases "pf_trivial_val n r")
      case t: True
      then have "search_pf_body it f3 n r (facts, prod0, out) = returns (facts2, p, out @ pf_emit it f3 n r (int j))"
        unfolding unf using j(1,2) f2(2) by (simp add: pf_emit_def)
      with f2(1) show ?thesis by blast
    next
      case t: False
      then have "search_pf_body it f3 n r (facts, prod0, out) = returns (facts3, p, out @ pf_emit it f3 n r (int j))"
        unfolding unf using j(1,2) f2(2) f3(2) by (simp add: pf_emit_def)
      with f3(1) show ?thesis by blast
    qed
    with True j(3) show ?thesis unfolding p_def by auto
  qed
qed

lemma search_bf_body_reachable:
  assumes "reachable facts" "0 \<le> n" "0 \<le> r"
  shows "\<exists>facts' em. reachable facts' \<and>
           search_bf_body it n r (facts, out) = returns (facts', out @ em) \<and>
           (if is_fact (int (nat n choose nat r)) then \<exists>j. int (nat n choose nat r) = fact j \<and> em = bf_emit it n r (int j)
            else em = [])"
proof -
  define p where "p = int (nat n choose nat r)"
  have comb: "math_comb n r = Inr p" using assms(2,3) by (simp add: math_comb_def p_def)
  from is_factorial_reachable[OF assms(1), of p] obtain facts1 ok k where f1:
    "reachable facts1" "is_factorial facts p = returns ((ok, k), facts1)"
    "if is_fact p then ok \<and> (\<exists>j. k = Some (int j) \<and> p = fact j) else \<not> ok \<and> k = None" by blast
  have unf: "search_bf_body it n r (facts, out) =
      (case k of None \<Rightarrow> returns (facts1, out)
       | Some c \<Rightarrow> if \<not> ok then returns (facts1, out)
          else bind_result (is_bf_trivial facts1 n r c) (\<lambda>(triv, facts).
              if triv then
                returns (facts,
                  if it
                  then out @ [\<lparr>bf_n = n, bf_r = r, bf_c = c, bf_cls = ''trivial''\<rparr>]
                  else out)
              else
                  returns (facts,
                    out @ [\<lparr>bf_n = n, bf_r = r, bf_c = c, bf_cls = ''exceptional''\<rparr>])))"
    using f1(2) comb by (simp add: search_bf_body_def)
  show ?thesis
  proof (cases "is_fact p")
    case False
    then have "search_bf_body it n r (facts, out) = returns (facts1, out @ [])"
      using unf f1(3) by simp
    with f1(1) False show ?thesis unfolding p_def by auto
  next
    case True
    with f1(3) obtain j where j: "ok" "k = Some (int j)" "p = fact j" by auto
    from is_bf_trivial_reachable[OF f1(1), of n r "int j"] obtain facts2 where f2:
      "reachable facts2" "is_bf_trivial facts1 n r (int j) = returns (bf_trivial_val n r, facts2)" by blast
    have "search_bf_body it n r (facts, out) = returns (facts2, out @ bf_emit it n r (int j))"
      unfolding unf using j(1,2) f2(2) by (simp add: bf_emit_def)
    with f2(1) True j(3) show ?thesis unfolding p_def by auto
  qed
qed

section \<open>The search loops on a reachable table\<close>

lemma search_pf_inner_reachable:
  "reachable facts \<Longrightarrow>
   \<exists>facts' prod' recs. reachable facts' \<and>
     search_pf_inner it f3 n rs (facts, prod0, out) = returns (facts', prod', out @ recs) \<and>
     pf_trace it f3 n rs prod0 recs"
proof (induction rs arbitrary: facts prod0 out)
  case Nil
  then show ?case using pf_done[of it f3 n prod0]
    by (intro exI[of _ facts] exI[of _ prod0] exI[of _ "[]"]) simp
next
  case (Cons r rs)
  from search_pf_body_reachable[OF Cons.prems, of it f3 n r prod0 out]
  obtain facts1 em where b: "reachable facts1"
    "search_pf_body it f3 n r (facts, prod0, out) = returns (facts1, pf_prod n r prod0, out @ em)"
    "if is_fact (pf_prod n r prod0) then \<exists>j. pf_prod n r prod0 = fact j \<and> em = pf_emit it f3 n r (int j)
     else em = []" by blast
  from Cons.IH[OF b(1), of "pf_prod n r prod0" "out @ em"]
  obtain facts2 prod2 recs where i: "reachable facts2"
    "search_pf_inner it f3 n rs (facts1, pf_prod n r prod0, out @ em) = returns (facts2, prod2, (out @ em) @ recs)"
    "pf_trace it f3 n rs (pf_prod n r prod0) recs" by blast
  have run: "search_pf_inner it f3 n (r # rs) (facts, prod0, out) = returns (facts2, prod2, out @ (em @ recs))"
    using b(2) i(2) by simp
  have "pf_trace it f3 n (r # rs) prod0 (em @ recs)"
  proof (cases "is_fact (pf_prod n r prod0)")
    case True
    with b(3) obtain j where "pf_prod n r prod0 = fact j" "em = pf_emit it f3 n r (int j)" by auto
    then show ?thesis using pf_hit[where j = j, OF _ i(3)] by simp
  next
    case False
    with b(3) have "em = []" by simp
    then show ?thesis using pf_skip[OF False i(3)] by simp
  qed
  with run i(1) show ?case by blast
qed

lemma search_pf_outer_reachable:
  "reachable facts \<Longrightarrow>
   \<exists>facts' recs. reachable facts' \<and>
     search_pf_outer it f3 ns (facts, out) = returns (facts', out @ recs) \<and>
     pf_traces it f3 ns recs"
proof (induction ns arbitrary: facts out)
  case Nil
  then show ?case using pfs_done[of it f3]
    by (intro exI[of _ facts] exI[of _ "[]"]) simp
next
  case (Cons n ns)
  from search_pf_inner_reachable[OF Cons.prems, of it f3 n "[0..n]" 1 out]
  obtain facts1 prod1 recs1 where b: "reachable facts1"
    "search_pf_inner it f3 n [0..n] (facts, 1, out) = returns (facts1, prod1, out @ recs1)"
    "pf_trace it f3 n [0..n] 1 recs1" by blast
  from Cons.IH[OF b(1), of "out @ recs1"]
  obtain facts2 recs2 where i: "reachable facts2"
    "search_pf_outer it f3 ns (facts1, out @ recs1) = returns (facts2, (out @ recs1) @ recs2)"
    "pf_traces it f3 ns recs2" by blast
  have "search_pf_outer it f3 (n # ns) (facts, out) = returns (facts2, out @ (recs1 @ recs2))"
    using b(2) i(2) by simp
  moreover have "pf_traces it f3 (n # ns) (recs1 @ recs2)"
    using pfs_step[OF b(3) i(3)] .
  ultimately show ?case using i(1) by blast
qed

lemma search_pf_reachable:
  assumes "reachable facts"
  shows "\<exists>facts' recs. reachable facts' \<and>
     search_pf facts n_max it f3 = returns (recs, facts') \<and>
     pf_traces it f3 [0..n_max] recs"
proof -
  from search_pf_outer_reachable[OF assms, of it f3 "[0..n_max]" "[]"]
  obtain facts' recs where r: "reachable facts'"
    "search_pf_outer it f3 [0..n_max] (facts, []) = returns (facts', [] @ recs)"
    "pf_traces it f3 [0..n_max] recs" by blast
  have "search_pf facts n_max it f3 = returns (recs, facts')"
    using r(2) by (simp add: search_pf_def map_result_def)
  with r(1,3) show ?thesis by blast
qed

lemma search_bf_inner_reachable:
  "reachable facts \<Longrightarrow> 0 \<le> n \<Longrightarrow> \<forall>r \<in> set rs. 0 \<le> r \<Longrightarrow>
   \<exists>facts' recs. reachable facts' \<and>
     search_bf_inner it n rs (facts, out) = returns (facts', out @ recs) \<and>
     bf_trace it n rs recs"
proof (induction rs arbitrary: facts out)
  case Nil
  then show ?case using bf_done[of it n]
    by (intro exI[of _ facts] exI[of _ "[]"]) simp
next
  case (Cons r rs)
  have r0: "0 \<le> r" and rs0: "\<forall>r \<in> set rs. 0 \<le> r" using Cons.prems(3) by auto
  from search_bf_body_reachable[OF Cons.prems(1,2) r0, of it out]
  obtain facts1 em where b: "reachable facts1"
    "search_bf_body it n r (facts, out) = returns (facts1, out @ em)"
    "if is_fact (int (nat n choose nat r)) then \<exists>j. int (nat n choose nat r) = fact j \<and> em = bf_emit it n r (int j)
     else em = []" by blast
  from Cons.IH[OF b(1) Cons.prems(2) rs0, of "out @ em"]
  obtain facts2 recs where i: "reachable facts2"
    "search_bf_inner it n rs (facts1, out @ em) = returns (facts2, (out @ em) @ recs)"
    "bf_trace it n rs recs" by blast
  have run: "search_bf_inner it n (r # rs) (facts, out) = returns (facts2, out @ (em @ recs))"
    using b(2) i(2) by simp
  have "bf_trace it n (r # rs) (em @ recs)"
  proof (cases "is_fact (int (nat n choose nat r))")
    case True
    with b(3) obtain j where "int (nat n choose nat r) = fact j" "em = bf_emit it n r (int j)" by auto
    then show ?thesis using bf_hit[where j = j, OF _ i(3)] by simp
  next
    case False
    with b(3) have "em = []" by simp
    then show ?thesis using bf_skip[OF False i(3)] by simp
  qed
  with run i(1) show ?case by blast
qed

lemma search_bf_outer_reachable:
  "reachable facts \<Longrightarrow> \<forall>n \<in> set ns. 0 \<le> n \<Longrightarrow>
   \<exists>facts' recs. reachable facts' \<and>
     search_bf_outer it ns (facts, out) = returns (facts', out @ recs) \<and>
     bf_traces it ns recs"
proof (induction ns arbitrary: facts out)
  case Nil
  then show ?case using bfs_done[of it]
    by (intro exI[of _ facts] exI[of _ "[]"]) simp
next
  case (Cons n ns)
  have n0: "0 \<le> n" and ns0: "\<forall>n \<in> set ns. 0 \<le> n" using Cons.prems(2) by auto
  have rs0: "\<forall>r \<in> set [0..n]. 0 \<le> r" by simp
  from search_bf_inner_reachable[OF Cons.prems(1) n0 rs0, of it out]
  obtain facts1 recs1 where b: "reachable facts1"
    "search_bf_inner it n [0..n] (facts, out) = returns (facts1, out @ recs1)"
    "bf_trace it n [0..n] recs1" by blast
  from Cons.IH[OF b(1) ns0, of "out @ recs1"]
  obtain facts2 recs2 where i: "reachable facts2"
    "search_bf_outer it ns (facts1, out @ recs1) = returns (facts2, (out @ recs1) @ recs2)"
    "bf_traces it ns recs2" by blast
  have "search_bf_outer it (n # ns) (facts, out) = returns (facts2, out @ (recs1 @ recs2))"
    using b(2) i(2) by simp
  moreover have "bf_traces it (n # ns) (recs1 @ recs2)"
    using bfs_step[OF b(3) i(3)] .
  ultimately show ?case using i(1) by blast
qed

lemma search_bf_reachable:
  assumes "reachable facts"
  shows "\<exists>facts' recs. reachable facts' \<and>
     search_bf facts n_max it = returns (recs, facts') \<and>
     bf_traces it [0..n_max] recs"
proof -
  have "\<forall>n \<in> set [0..n_max]. 0 \<le> n" by simp
  from search_bf_outer_reachable[OF assms this, of it "[]"]
  obtain facts' recs where r: "reachable facts'"
    "search_bf_outer it [0..n_max] (facts, []) = returns (facts', [] @ recs)"
    "bf_traces it [0..n_max] recs" by blast
  have "search_bf facts n_max it = returns (recs, facts')"
    using r(2) by (simp add: search_bf_def map_result_def)
  with r(1,3) show ?thesis by blast
qed

section \<open>Properties of the traces\<close>

inductive_cases pf_trace_NilE: "pf_trace it f3 n [] p recs"
inductive_cases pf_trace_ConsE: "pf_trace it f3 n (r # rs) p recs"
inductive_cases pf_traces_NilE: "pf_traces it f3 [] recs"
inductive_cases pf_traces_ConsE: "pf_traces it f3 (n # ns) recs"
inductive_cases bf_trace_NilE: "bf_trace it n [] recs"
inductive_cases bf_trace_ConsE: "bf_trace it n (r # rs) recs"
inductive_cases bf_traces_NilE: "bf_traces it [] recs"
inductive_cases bf_traces_ConsE: "bf_traces it (n # ns) recs"

lemma upto_0_6: "[0..6::int] = [0,1,2,3,4,5,6]" by (simp add: upto_rec1)
lemma upto_0_4: "[0..4::int] = [0,1,2,3,4]" by (simp add: upto_rec1)
lemma strict_upto: "sorted_wrt (<) [i..j]"
  by (simp add: strict_sorted_iff)

lemma pf_emit_fields:
  "x \<in> set (pf_emit it f3 n r c) \<Longrightarrow> pf_n x = n \<and> pf_r x = r \<and> pf_c x = c"
  by (auto simp: pf_emit_def split: if_splits)

lemma bf_emit_fields:
  "x \<in> set (bf_emit it n r c) \<Longrightarrow> bf_n x = n \<and> bf_r x = r \<and> bf_c x = c"
  by (auto simp: bf_emit_def split: if_splits)

lemma pf_trace_fields:
  "pf_trace it f3 n rs p recs \<Longrightarrow> x \<in> set recs \<Longrightarrow> pf_n x = n \<and> pf_r x \<in> set rs"
  by (induction rule: pf_trace.induct) (auto dest: pf_emit_fields)

lemma bf_trace_fields:
  "bf_trace it n rs recs \<Longrightarrow> x \<in> set recs \<Longrightarrow> bf_n x = n \<and> bf_r x \<in> set rs"
  by (induction rule: bf_trace.induct) (auto dest: bf_emit_fields)

lemma pf_traces_fields:
  "pf_traces it f3 ns recs \<Longrightarrow> x \<in> set recs \<Longrightarrow> pf_n x \<in> set ns"
  by (induction rule: pf_traces.induct) (auto dest: pf_trace_fields)

lemma bf_traces_fields:
  "bf_traces it ns recs \<Longrightarrow> x \<in> set recs \<Longrightarrow> bf_n x \<in> set ns"
  by (induction rule: bf_traces.induct) (auto dest: bf_trace_fields)

lemma pf_emit_sorted: "sorted_wrt R (pf_emit it f3 n r c)"
  by (simp add: pf_emit_def)

lemma bf_emit_sorted: "sorted_wrt R (bf_emit it n r c)"
  by (simp add: bf_emit_def)

lemma pf_trace_sorted:
  "pf_trace it f3 n rs p recs \<Longrightarrow> sorted_wrt (<) rs \<Longrightarrow>
   sorted_wrt (\<lambda>a b. pf_n a < pf_n b \<or> (pf_n a = pf_n b \<and> pf_r a < pf_r b)) recs"
proof (induction rule: pf_trace.induct)
  case (pf_hit n r prod0 j it f3 rs recs)
  have "pf_n a = pf_n b \<and> pf_r a < pf_r b"
    if "a \<in> set (pf_emit it f3 n r (int j))" "b \<in> set recs" for a b
    using pf_emit_fields[OF that(1)] pf_trace_fields[OF pf_hit.hyps(2) that(2)] pf_hit.prems by auto
  then show ?case using pf_hit by (auto simp: sorted_wrt_append pf_emit_sorted)
qed auto

lemma bf_trace_sorted:
  "bf_trace it n rs recs \<Longrightarrow> sorted_wrt (<) rs \<Longrightarrow>
   sorted_wrt (\<lambda>a b. bf_n a < bf_n b \<or> (bf_n a = bf_n b \<and> bf_r a < bf_r b)) recs"
proof (induction rule: bf_trace.induct)
  case (bf_hit n r j it rs recs)
  have "bf_n a = bf_n b \<and> bf_r a < bf_r b"
    if "a \<in> set (bf_emit it n r (int j))" "b \<in> set recs" for a b
    using bf_emit_fields[OF that(1)] bf_trace_fields[OF bf_hit.hyps(2) that(2)] bf_hit.prems by auto
  then show ?case using bf_hit by (auto simp: sorted_wrt_append bf_emit_sorted)
qed auto

lemma pf_traces_sorted:
  "pf_traces it f3 ns recs \<Longrightarrow> sorted_wrt (<) ns \<Longrightarrow>
   sorted_wrt (\<lambda>a b. pf_n a < pf_n b \<or> (pf_n a = pf_n b \<and> pf_r a < pf_r b)) recs"
proof (induction rule: pf_traces.induct)
  case (pfs_step it f3 n recs ns recs')
  have "pf_n a < pf_n b" if "a \<in> set recs" "b \<in> set recs'" for a b
    using pf_trace_fields[OF pfs_step.hyps(1) that(1)] pf_traces_fields[OF pfs_step.hyps(2) that(2)]
      pfs_step.prems by auto
  moreover have "sorted_wrt (\<lambda>a b. pf_n a < pf_n b \<or> (pf_n a = pf_n b \<and> pf_r a < pf_r b)) recs"
    using pf_trace_sorted[OF pfs_step.hyps(1) strict_upto] .
  ultimately show ?case using pfs_step by (auto simp: sorted_wrt_append)
qed auto

lemma bf_traces_sorted:
  "bf_traces it ns recs \<Longrightarrow> sorted_wrt (<) ns \<Longrightarrow>
   sorted_wrt (\<lambda>a b. bf_n a < bf_n b \<or> (bf_n a = bf_n b \<and> bf_r a < bf_r b)) recs"
proof (induction rule: bf_traces.induct)
  case (bfs_step it n recs ns recs')
  have "bf_n a < bf_n b" if "a \<in> set recs" "b \<in> set recs'" for a b
    using bf_trace_fields[OF bfs_step.hyps(1) that(1)] bf_traces_fields[OF bfs_step.hyps(2) that(2)]
      bfs_step.prems by auto
  moreover have "sorted_wrt (\<lambda>a b. bf_n a < bf_n b \<or> (bf_n a = bf_n b \<and> bf_r a < bf_r b)) recs"
    using bf_trace_sorted[OF bfs_step.hyps(1) strict_upto] .
  ultimately show ?case using bfs_step by (auto simp: sorted_wrt_append)
qed auto







lemma pf_traces_member:
  "pf_traces it f3 ns recs \<Longrightarrow> n \<in> set ns \<Longrightarrow>
   \<exists>seg. pf_trace it f3 n [0..n] 1 seg \<and> set seg \<subseteq> set recs"
  by (induction rule: pf_traces.induct) auto

lemma bf_traces_member:
  "bf_traces it ns recs \<Longrightarrow> n \<in> set ns \<Longrightarrow>
   \<exists>seg. bf_trace it n [0..n] seg \<and> set seg \<subseteq> set recs"
  by (induction rule: bf_traces.induct) auto

lemma pf_trace_tail:
  "pf_trace it f3 n (r # rs) p recs \<Longrightarrow>
   \<exists>recs'. pf_trace it f3 n rs (pf_prod n r p) recs' \<and> set recs' \<subseteq> set recs"
  by (erule pf_trace_ConsE) auto

lemma bf_trace_tail:
  "bf_trace it n (r # rs) recs \<Longrightarrow> \<exists>recs'. bf_trace it n rs recs' \<and> set recs' \<subseteq> set recs"
  by (erule bf_trace_ConsE) auto

lemma pf_trace_head:
  assumes "pf_trace it f3 n (r # rs) p recs" "pf_prod n r p = fact j" "2 \<le> j"
  shows "set (pf_emit it f3 n r (int j)) \<subseteq> set recs"
  using assms(1)
proof (rule pf_trace_ConsE)
  assume "\<not> is_fact (pf_prod n r p)"
  with assms(2) show ?thesis by (auto simp: is_fact_def)
next
  fix j' recs'
  assume h: "recs = pf_emit it f3 n r (int j') @ recs'" "pf_prod n r p = fact j'"
  have "j = j'" using fact_eq_int[of j j'] assms(2,3) h(2) by simp
  with h(1) show ?thesis by auto
qed

lemma bf_trace_head:
  assumes "bf_trace it n (r # rs) recs" "int (nat n choose nat r) = fact j" "2 \<le> j"
  shows "set (bf_emit it n r (int j)) \<subseteq> set recs"
  using assms(1)
proof (rule bf_trace_ConsE)
  assume "\<not> is_fact (int (nat n choose nat r))"
  with assms(2) show ?thesis by (auto simp: is_fact_def)
next
  fix j' recs'
  assume h: "recs = bf_emit it n r (int j') @ recs'" "int (nat n choose nat r) = fact j'"
  have "j = j'" using fact_eq_int[of j j'] assms(2,3) h(2) by simp
  with h(1) show ?thesis by auto
qed

lemma pf_emit_6_3_5:
  "pf_emit it True 6 3 5 = [\<lparr>pf_n = 6, pf_r = 3, pf_c = 5, pf_cls = ''PF_F3''\<rparr>]"
proof -
  have "\<not> pf_trivial_val 6 3" by (simp add: pf_trivial_val_def)
  moreover have "pf_F3_val 6 3 5"
    unfolding pf_F3_val_def by (rule exI[of _ 3]) (simp add: fact_numeral)
  ultimately show ?thesis by (simp add: pf_emit_def)
qed

lemma bf_emit_4_2_3:
  "bf_emit it 4 2 3 = [\<lparr>bf_n = 4, bf_r = 2, bf_c = 3, bf_cls = ''exceptional''\<rparr>]"
proof -
  have "\<not> bf_trivial_val 4 2" by (simp add: bf_trivial_val_def)
  then show ?thesis by (simp add: bf_emit_def)
qed

section \<open>Two runs of a search\<close>

lemma extend_facts_init_2: "extend_factorials_until_ge facts_init 2 = Some (Inr [1, 1, 2])"
  by (simp add: extend_factorials_until_ge.simps facts_init_def py_index_def)

lemma reachable_1_1_2: "reachable [1, 1, 2]"
  using reachable.step[OF reachable.init extend_facts_init_2] .

lemma fact_unique: "(fact j1 :: int) = q \<Longrightarrow> fact j2 = q \<Longrightarrow> 2 \<le> q \<Longrightarrow> j1 = j2"
proof -
  assume a: "(fact j1 :: int) = q" "fact j2 = q" "2 \<le> q"
  have "2 \<le> j1"
  proof (rule ccontr)
    assume "\<not> 2 \<le> j1"
    then have "j1 = 0 \<or> j1 = 1" by auto
    then have "(fact j1 :: int) = 1" by auto
    with a show False by simp
  qed
  then show ?thesis using fact_eq_int[of j1 j2] a by simp
qed

lemma fact_small: "(fact j :: int) = q \<Longrightarrow> q < 2 \<Longrightarrow> j = 0 \<or> j = 1"
proof (rule ccontr)
  assume a: "(fact j :: int) = q" "q < 2" and "\<not> (j = 0 \<or> j = 1)"
  then have "2 \<le> j" by auto
  then have "(fact 2 :: int) \<le> fact j" by (rule fact_mono)
  with a show False by (simp add: numeral_2_eq_2)
qed

lemma pf_prod_ge_1: "1 \<le> p \<Longrightarrow> r \<le> n \<Longrightarrow> 1 \<le> pf_prod n r p"
proof -
  assume p: "1 \<le> p" and r: "r \<le> n"
  show ?thesis
  proof (cases "0 < r")
    case True
    have "1 * 1 \<le> p * (n - (r - 1))" using p r by (intro mult_mono) auto
    with True show ?thesis by (simp add: pf_prod_def)
  next
    case False
    with p show ?thesis by (simp add: pf_prod_def)
  qed
qed

lemma pf_prod_nontrivial:
  "1 \<le> p \<Longrightarrow> 0 \<le> r \<Longrightarrow> r \<le> n \<Longrightarrow> \<not> pf_trivial_val n r \<Longrightarrow> 2 \<le> pf_prod n r p"
proof -
  assume p: "1 \<le> p" and r: "0 \<le> r" "r \<le> n" and nt: "\<not> pf_trivial_val n r"
  from nt r have r': "0 < r" "3 \<le> n - (r - 1)" by (auto simp: pf_trivial_val_def)
  have "1 * 3 \<le> p * (n - (r - 1))" using p r' by (intro mult_mono) auto
  with r'(1) show ?thesis by (simp add: pf_prod_def)
qed

lemma binomial_inner_ge_2: "0 < k \<Longrightarrow> k < n \<Longrightarrow> 2 \<le> n choose k"
proof -
  assume k: "0 < k" "k < n"
  then obtain k' n' where e: "k = Suc k'" "n = Suc n'" by (metis Suc_pred less_nat_zero_code not0_implies_Suc)
  with k have le: "k' \<le> n'" "Suc k' \<le> n'" by auto
  have "0 < n' choose k'" "0 < n' choose Suc k'" using le by (simp_all only: zero_less_binomial)
  then show ?thesis unfolding e binomial_Suc_Suc by linarith
qed

lemma bf_val_nontrivial:
  "0 \<le> r \<Longrightarrow> r \<le> n \<Longrightarrow> \<not> bf_trivial_val n r \<Longrightarrow> 2 \<le> int (nat n choose nat r)"
proof -
  assume r: "0 \<le> r" "r \<le> n" and nt: "\<not> bf_trivial_val n r"
  then have "0 < nat r" "nat r < nat n" by (auto simp: bf_trivial_val_def)
  from binomial_inner_ge_2[OF this] show ?thesis by simp
qed

lemma pf_emit_sim:
  assumes "(fact j1 :: int) = q" "fact j2 = q" "\<not> pf_trivial_val n r \<Longrightarrow> 2 \<le> q"
  shows "list_all2 pf_sim (pf_emit it f3 n r (int j1)) (pf_emit it f3 n r (int j2))"
proof (cases "j1 = j2")
  case True
  then show ?thesis by (simp add: list_all2_same pf_sim_def)
next
  case False
  then have q: "q < 2" using fact_unique[OF assms(1,2)] by fastforce
  then have t: "pf_trivial_val n r" using assms(3) by fastforce
  from fact_small[OF assms(1) q] fact_small[OF assms(2) q] t
  show ?thesis by (auto simp: pf_emit_def pf_sim_def)
qed

lemma bf_emit_sim:
  assumes "(fact j1 :: int) = q" "fact j2 = q" "\<not> bf_trivial_val n r \<Longrightarrow> 2 \<le> q"
  shows "list_all2 bf_sim (bf_emit it n r (int j1)) (bf_emit it n r (int j2))"
proof (cases "j1 = j2")
  case True
  then show ?thesis by (simp add: list_all2_same bf_sim_def)
next
  case False
  then have q: "q < 2" using fact_unique[OF assms(1,2)] by fastforce
  then have t: "bf_trivial_val n r" using assms(3) by fastforce
  from fact_small[OF assms(1) q] fact_small[OF assms(2) q] t
  show ?thesis by (auto simp: bf_emit_def bf_sim_def)
qed

lemma pf_emit_filter:
  assumes "(fact j1 :: int) = q" "fact j2 = q" "\<not> pf_trivial_val n r \<Longrightarrow> 2 \<le> q"
  shows "pf_emit False f3 n r (int j1) = filter (\<lambda>x. pf_cls x \<noteq> ''trivial'') (pf_emit True f3 n r (int j2))"
proof (cases "pf_trivial_val n r")
  case True
  then show ?thesis by (simp add: pf_emit_def)
next
  case False
  then have "j1 = j2" using fact_unique[OF assms(1,2)] assms(3) by simp
  with False show ?thesis by (simp add: pf_emit_def)
qed

lemma bf_emit_filter:
  assumes "(fact j1 :: int) = q" "fact j2 = q" "\<not> bf_trivial_val n r \<Longrightarrow> 2 \<le> q"
  shows "bf_emit False n r (int j1) = filter (\<lambda>x. bf_cls x \<noteq> ''trivial'') (bf_emit True n r (int j2))"
proof (cases "bf_trivial_val n r")
  case True
  then show ?thesis by (simp add: bf_emit_def)
next
  case False
  then have "j1 = j2" using fact_unique[OF assms(1,2)] assms(3) by simp
  with False show ?thesis by (simp add: bf_emit_def)
qed

lemma pf_trace_sim:
  "pf_trace it f3 n rs p recs1 \<Longrightarrow> pf_trace it f3 n rs p recs2 \<Longrightarrow> 1 \<le> p \<Longrightarrow>
   \<forall>r \<in> set rs. 0 \<le> r \<and> r \<le> n \<Longrightarrow> list_all2 pf_sim recs1 recs2"
proof (induction rs arbitrary: p recs1 recs2)
  case Nil
  then show ?case by (auto elim: pf_trace_NilE)
next
  case (Cons r rs)
  have r: "0 \<le> r" "r \<le> n" and rs: "\<forall>r \<in> set rs. 0 \<le> r \<and> r \<le> n" using Cons.prems(4) by auto
  define q where "q = pf_prod n r p"
  have q1: "1 \<le> q" unfolding q_def using pf_prod_ge_1[OF Cons.prems(3) r(2)] .
  have q2: "\<not> pf_trivial_val n r \<Longrightarrow> 2 \<le> q"
    unfolding q_def using pf_prod_nontrivial[OF Cons.prems(3) r] .
  from Cons.prems(1) show ?case
  proof (rule pf_trace_ConsE)
    assume a: "\<not> is_fact (pf_prod n r p)" "pf_trace it f3 n rs (pf_prod n r p) recs1"
    from Cons.prems(2) show ?thesis
    proof (rule pf_trace_ConsE)
      assume "pf_trace it f3 n rs (pf_prod n r p) recs2"
      from Cons.IH[OF a(2) this] q1 rs show ?thesis by (simp add: q_def)
    next
      fix j recs'
      assume "pf_prod n r p = fact j"
      with a(1) show ?thesis by (auto simp: is_fact_def)
    qed
  next
    fix j1 recs1'
    assume a: "recs1 = pf_emit it f3 n r (int j1) @ recs1'" "pf_prod n r p = fact j1"
      "pf_trace it f3 n rs (fact j1) recs1'"
    from Cons.prems(2) show ?thesis
    proof (rule pf_trace_ConsE)
      assume "\<not> is_fact (pf_prod n r p)"
      with a(2) show ?thesis by (auto simp: is_fact_def)
    next
      fix j2 recs2'
      assume b: "recs2 = pf_emit it f3 n r (int j2) @ recs2'" "pf_prod n r p = fact j2"
        "pf_trace it f3 n rs (fact j2) recs2'"
      have t: "list_all2 pf_sim recs1' recs2'"
        using Cons.IH[OF a(3)[folded a(2)] b(3)[folded b(2)]] q1 rs by (simp add: q_def)
      have h: "list_all2 pf_sim (pf_emit it f3 n r (int j1)) (pf_emit it f3 n r (int j2))"
        using pf_emit_sim[of j1 q j2 n r it f3] a(2) b(2) q2 by (simp add: q_def)
      show ?thesis using list_all2_appendI[OF h t] by (simp add: a(1) b(1))
    qed
  qed
qed

lemma pf_trace_filter:
  "pf_trace False f3 n rs p recsF \<Longrightarrow> pf_trace True f3 n rs p recsT \<Longrightarrow> 1 \<le> p \<Longrightarrow>
   \<forall>r \<in> set rs. 0 \<le> r \<and> r \<le> n \<Longrightarrow> recsF = filter (\<lambda>x. pf_cls x \<noteq> ''trivial'') recsT"
proof (induction rs arbitrary: p recsF recsT)
  case Nil
  have "recsF = []" using Nil.prems(1) by (rule pf_trace_NilE)
  moreover have "recsT = []" using Nil.prems(2) by (rule pf_trace_NilE)
  ultimately show ?case by simp
next
  case (Cons r rs)
  have r: "0 \<le> r" "r \<le> n" and rs: "\<forall>r \<in> set rs. 0 \<le> r \<and> r \<le> n" using Cons.prems(4) by auto
  define q where "q = pf_prod n r p"
  have q1: "1 \<le> q" unfolding q_def using pf_prod_ge_1[OF Cons.prems(3) r(2)] .
  have q2: "\<not> pf_trivial_val n r \<Longrightarrow> 2 \<le> q"
    unfolding q_def using pf_prod_nontrivial[OF Cons.prems(3) r] .
  from Cons.prems(1) show ?case
  proof (rule pf_trace_ConsE)
    assume a: "\<not> is_fact (pf_prod n r p)" "pf_trace False f3 n rs (pf_prod n r p) recsF"
    from Cons.prems(2) show ?thesis
    proof (rule pf_trace_ConsE)
      assume "pf_trace True f3 n rs (pf_prod n r p) recsT"
      from Cons.IH[OF a(2) this] q1 rs show ?thesis by (simp add: q_def)
    next
      fix j recs'
      assume "pf_prod n r p = fact j"
      with a(1) show ?thesis by (auto simp: is_fact_def)
    qed
  next
    fix j1 recs1'
    assume a: "recsF = pf_emit False f3 n r (int j1) @ recs1'" "pf_prod n r p = fact j1"
      "pf_trace False f3 n rs (fact j1) recs1'"
    from Cons.prems(2) show ?thesis
    proof (rule pf_trace_ConsE)
      assume "\<not> is_fact (pf_prod n r p)"
      with a(2) show ?thesis by (auto simp: is_fact_def)
    next
      fix j2 recs2'
      assume b: "recsT = pf_emit True f3 n r (int j2) @ recs2'" "pf_prod n r p = fact j2"
        "pf_trace True f3 n rs (fact j2) recs2'"
      have t: "recs1' = filter (\<lambda>x. pf_cls x \<noteq> ''trivial'') recs2'"
        using Cons.IH[OF a(3)[folded a(2)] b(3)[folded b(2)]] q1 rs by (simp add: q_def)
      have h: "pf_emit False f3 n r (int j1) = filter (\<lambda>x. pf_cls x \<noteq> ''trivial'') (pf_emit True f3 n r (int j2))"
        using pf_emit_filter[of j1 q j2 n r f3] a(2) b(2) q2 by (simp add: q_def)
      show ?thesis unfolding a(1) b(1) using h t by simp
    qed
  qed
qed

lemma bf_trace_sim:
  "bf_trace it n rs recs1 \<Longrightarrow> bf_trace it n rs recs2 \<Longrightarrow>
   \<forall>r \<in> set rs. 0 \<le> r \<and> r \<le> n \<Longrightarrow> list_all2 bf_sim recs1 recs2"
proof (induction rs arbitrary: recs1 recs2)
  case Nil
  then show ?case by (auto elim: bf_trace_NilE)
next
  case (Cons r rs)
  have r: "0 \<le> r" "r \<le> n" and rs: "\<forall>r \<in> set rs. 0 \<le> r \<and> r \<le> n" using Cons.prems(3) by auto
  define q where "q = int (nat n choose nat r)"
  have q2: "\<not> bf_trivial_val n r \<Longrightarrow> 2 \<le> q"
    unfolding q_def using bf_val_nontrivial[OF r] .
  from Cons.prems(1) show ?case
  proof (rule bf_trace_ConsE)
    assume a: "\<not> is_fact (int (nat n choose nat r))" "bf_trace it n rs recs1"
    from Cons.prems(2) show ?thesis
    proof (rule bf_trace_ConsE)
      assume "bf_trace it n rs recs2"
      from Cons.IH[OF a(2) this rs] show ?thesis .
    next
      fix j recs'
      assume "int (nat n choose nat r) = fact j"
      with a(1) show ?thesis by (auto simp: is_fact_def)
    qed
  next
    fix j1 recs1'
    assume a: "recs1 = bf_emit it n r (int j1) @ recs1'" "int (nat n choose nat r) = fact j1"
      "bf_trace it n rs recs1'"
    from Cons.prems(2) show ?thesis
    proof (rule bf_trace_ConsE)
      assume "\<not> is_fact (int (nat n choose nat r))"
      with a(2) show ?thesis by (auto simp: is_fact_def)
    next
      fix j2 recs2'
      assume b: "recs2 = bf_emit it n r (int j2) @ recs2'" "int (nat n choose nat r) = fact j2"
        "bf_trace it n rs recs2'"
      have t: "list_all2 bf_sim recs1' recs2'"
        using Cons.IH[OF a(3) b(3) rs] .
      have h: "list_all2 bf_sim (bf_emit it n r (int j1)) (bf_emit it n r (int j2))"
        using bf_emit_sim[of j1 q j2 n r it] a(2) b(2) q2 by (simp add: q_def)
      show ?thesis using list_all2_appendI[OF h t] by (simp add: a(1) b(1))
    qed
  qed
qed

lemma bf_trace_filter:
  "bf_trace False n rs recsF \<Longrightarrow> bf_trace True n rs recsT \<Longrightarrow>
   \<forall>r \<in> set rs. 0 \<le> r \<and> r \<le> n \<Longrightarrow> recsF = filter (\<lambda>x. bf_cls x \<noteq> ''trivial'') recsT"
proof (induction rs arbitrary: recsF recsT)
  case Nil
  have "recsF = []" using Nil.prems(1) by (rule bf_trace_NilE)
  moreover have "recsT = []" using Nil.prems(2) by (rule bf_trace_NilE)
  ultimately show ?case by simp
next
  case (Cons r rs)
  have r: "0 \<le> r" "r \<le> n" and rs: "\<forall>r \<in> set rs. 0 \<le> r \<and> r \<le> n" using Cons.prems(3) by auto
  define q where "q = int (nat n choose nat r)"
  have q2: "\<not> bf_trivial_val n r \<Longrightarrow> 2 \<le> q"
    unfolding q_def using bf_val_nontrivial[OF r] .
  from Cons.prems(1) show ?case
  proof (rule bf_trace_ConsE)
    assume a: "\<not> is_fact (int (nat n choose nat r))" "bf_trace False n rs recsF"
    from Cons.prems(2) show ?thesis
    proof (rule bf_trace_ConsE)
      assume "bf_trace True n rs recsT"
      from Cons.IH[OF a(2) this rs] show ?thesis .
    next
      fix j recs'
      assume "int (nat n choose nat r) = fact j"
      with a(1) show ?thesis by (auto simp: is_fact_def)
    qed
  next
    fix j1 recs1'
    assume a: "recsF = bf_emit False n r (int j1) @ recs1'" "int (nat n choose nat r) = fact j1"
      "bf_trace False n rs recs1'"
    from Cons.prems(2) show ?thesis
    proof (rule bf_trace_ConsE)
      assume "\<not> is_fact (int (nat n choose nat r))"
      with a(2) show ?thesis by (auto simp: is_fact_def)
    next
      fix j2 recs2'
      assume b: "recsT = bf_emit True n r (int j2) @ recs2'" "int (nat n choose nat r) = fact j2"
        "bf_trace True n rs recs2'"
      have t: "recs1' = filter (\<lambda>x. bf_cls x \<noteq> ''trivial'') recs2'"
        using Cons.IH[OF a(3) b(3) rs] .
      have h: "bf_emit False n r (int j1) = filter (\<lambda>x. bf_cls x \<noteq> ''trivial'') (bf_emit True n r (int j2))"
        using bf_emit_filter[of j1 q j2 n r] a(2) b(2) q2 by (simp add: q_def)
      show ?thesis unfolding a(1) b(1) using h t by simp
    qed
  qed
qed

lemma upto_bounds: "\<forall>r \<in> set [0..n]. 0 \<le> r \<and> r \<le> n"
  by simp

lemma pf_traces_sim:
  "pf_traces it f3 ns recs1 \<Longrightarrow> pf_traces it f3 ns recs2 \<Longrightarrow> list_all2 pf_sim recs1 recs2"
proof (induction ns arbitrary: recs1 recs2)
  case Nil
  then show ?case by (auto elim: pf_traces_NilE)
next
  case (Cons n ns)
  from Cons.prems(1) obtain a1 b1 where 1: "recs1 = a1 @ b1" "pf_trace it f3 n [0..n] 1 a1"
    "pf_traces it f3 ns b1" by (auto elim: pf_traces_ConsE)
  from Cons.prems(2) obtain a2 b2 where 2: "recs2 = a2 @ b2" "pf_trace it f3 n [0..n] 1 a2"
    "pf_traces it f3 ns b2" by (auto elim: pf_traces_ConsE)
  have "list_all2 pf_sim a1 a2" using pf_trace_sim[OF 1(2) 2(2) _ upto_bounds] by simp
  moreover have "list_all2 pf_sim b1 b2" using Cons.IH[OF 1(3) 2(3)] .
  ultimately show ?case unfolding 1(1) 2(1) by (rule list_all2_appendI)
qed

lemma bf_traces_sim:
  "bf_traces it ns recs1 \<Longrightarrow> bf_traces it ns recs2 \<Longrightarrow> list_all2 bf_sim recs1 recs2"
proof (induction ns arbitrary: recs1 recs2)
  case Nil
  then show ?case by (auto elim: bf_traces_NilE)
next
  case (Cons n ns)
  from Cons.prems(1) obtain a1 b1 where 1: "recs1 = a1 @ b1" "bf_trace it n [0..n] a1"
    "bf_traces it ns b1" by (auto elim: bf_traces_ConsE)
  from Cons.prems(2) obtain a2 b2 where 2: "recs2 = a2 @ b2" "bf_trace it n [0..n] a2"
    "bf_traces it ns b2" by (auto elim: bf_traces_ConsE)
  have "list_all2 bf_sim a1 a2" using bf_trace_sim[OF 1(2) 2(2) upto_bounds] .
  moreover have "list_all2 bf_sim b1 b2" using Cons.IH[OF 1(3) 2(3)] .
  ultimately show ?case unfolding 1(1) 2(1) by (rule list_all2_appendI)
qed

lemma pf_traces_filter:
  "pf_traces False f3 ns recsF \<Longrightarrow> pf_traces True f3 ns recsT \<Longrightarrow>
   recsF = filter (\<lambda>x. pf_cls x \<noteq> ''trivial'') recsT"
proof (induction ns arbitrary: recsF recsT)
  case Nil
  have "recsF = []" using Nil.prems(1) by (rule pf_traces_NilE)
  moreover have "recsT = []" using Nil.prems(2) by (rule pf_traces_NilE)
  ultimately show ?case by simp
next
  case (Cons n ns)
  from Cons.prems(1) obtain a1 b1 where 1: "recsF = a1 @ b1" "pf_trace False f3 n [0..n] 1 a1"
    "pf_traces False f3 ns b1" by (auto elim: pf_traces_ConsE)
  from Cons.prems(2) obtain a2 b2 where 2: "recsT = a2 @ b2" "pf_trace True f3 n [0..n] 1 a2"
    "pf_traces True f3 ns b2" by (auto elim: pf_traces_ConsE)
  have "a1 = filter (\<lambda>x. pf_cls x \<noteq> ''trivial'') a2"
    using pf_trace_filter[OF 1(2) 2(2) _ upto_bounds] by simp
  moreover have "b1 = filter (\<lambda>x. pf_cls x \<noteq> ''trivial'') b2" using Cons.IH[OF 1(3) 2(3)] .
  ultimately show ?case unfolding 1(1) 2(1) by simp
qed

lemma bf_traces_filter:
  "bf_traces False ns recsF \<Longrightarrow> bf_traces True ns recsT \<Longrightarrow>
   recsF = filter (\<lambda>x. bf_cls x \<noteq> ''trivial'') recsT"
proof (induction ns arbitrary: recsF recsT)
  case Nil
  have "recsF = []" using Nil.prems(1) by (rule bf_traces_NilE)
  moreover have "recsT = []" using Nil.prems(2) by (rule bf_traces_NilE)
  ultimately show ?case by simp
next
  case (Cons n ns)
  from Cons.prems(1) obtain a1 b1 where 1: "recsF = a1 @ b1" "bf_trace False n [0..n] a1"
    "bf_traces False ns b1" by (auto elim: bf_traces_ConsE)
  from Cons.prems(2) obtain a2 b2 where 2: "recsT = a2 @ b2" "bf_trace True n [0..n] a2"
    "bf_traces True ns b2" by (auto elim: bf_traces_ConsE)
  have "a1 = filter (\<lambda>x. bf_cls x \<noteq> ''trivial'') a2"
    using bf_trace_filter[OF 1(2) 2(2) upto_bounds] .
  moreover have "b1 = filter (\<lambda>x. bf_cls x \<noteq> ''trivial'') b2" using Cons.IH[OF 1(3) 2(3)] .
  ultimately show ?case unfolding 1(1) 2(1) by simp
qed

lemma returns_inject: "returns a = returns b \<Longrightarrow> a = b"
  by (simp add: returns_def)

section \<open>Properties of the factorial index\<close>

text \<open>
  Claim C1. On every table the program can hold, \<open>factorial_index_of(k!)\<close> returns
  \<open>(True, k')\<close>, where \<open>k' = k\<close> for \<open>k \<ge> 2\<close>, and \<open>k'\<close> is \<open>0\<close> or \<open>1\<close> for the value
  \<open>1 = 0! = 1!\<close>.
\<close>

theorem factorial_index_of_factorial:
  "reachable facts \<Longrightarrow>
   \<exists>facts' k'. factorial_index_of facts (fact k) = returns ((True, Some k'), facts') \<and>
     (2 \<le> k \<longrightarrow> k' = int k) \<and> (k < 2 \<longrightarrow> k' = 0 \<or> k' = 1)"
proof -
  assume "reachable facts"
  from factorial_index_of_reachable[OF this, of "fact k"]
  obtain facts' ok k' where r:
    "factorial_index_of facts (fact k) = returns ((ok, k'), facts')"
    "if \<exists>j. (fact k :: int) = fact j then ok \<and> (\<exists>j. k' = Some (int j) \<and> (fact k :: int) = fact j)
     else \<not> ok \<and> k' = None" by blast
  have "\<exists>j. (fact k :: int) = fact j" by blast
  with r(2) obtain j where j: "ok" "k' = Some (int j)" "(fact k :: int) = fact j" by auto
  have "j = k" if "2 \<le> k" using fact_eq_int[OF j(3) that] by simp
  moreover have "j < 2" if "k < 2"
  proof (rule ccontr)
    assume "\<not> j < 2"
    then have "j = k" using fact_eq_int[OF j(3)[symmetric]] by simp
    with that \<open>\<not> j < 2\<close> show False by simp
  qed
  ultimately show ?thesis using r(1) j(1,2)
    by (intro exI[of _ facts'] exI[of _ "int j"]) auto
qed

theorem factorial_index_of_factorial_witness:
  "reachable facts_init \<and>
   (\<exists>facts' k'. factorial_index_of facts_init (fact 4) = returns ((True, Some k'), facts') \<and>
     ((2::nat) \<le> 4 \<longrightarrow> k' = int 4) \<and> ((4::nat) < 2 \<longrightarrow> k' = 0 \<or> k' = 1))"
  using factorial_index_of_factorial[OF reachable.init, of 4] reachable.init by simp

text \<open>
  Claim C2. On every table the program can hold, \<open>factorial_index_of(x)\<close> returns
  \<open>(False, None)\<close> for an \<open>x\<close> that is no factorial; for \<open>x < 1\<close> it does so at once and
  leaves the table as it is.
\<close>

theorem factorial_index_of_non_factorial:
  "reachable facts \<Longrightarrow>
   ((\<forall>k. x \<noteq> fact k) \<longrightarrow> (\<exists>facts'. factorial_index_of facts x = returns ((False, None), facts'))) \<and>
   (x < 1 \<longrightarrow> factorial_index_of facts x = returns ((False, None), facts))"
proof -
  assume "reachable facts"
  from factorial_index_of_reachable[OF this, of x]
  obtain facts' ok k' where r:
    "factorial_index_of facts x = returns ((ok, k'), facts')"
    "if \<exists>j. x = fact j then ok \<and> (\<exists>j. k' = Some (int j) \<and> x = fact j)
     else \<not> ok \<and> k' = None" by blast
  have "\<exists>facts'. factorial_index_of facts x = returns ((False, None), facts')" if "\<forall>k. x \<noteq> fact k"
    using r that by auto
  moreover have "factorial_index_of facts x = returns ((False, None), facts)" if "x < 1"
    using that by (simp add: factorial_index_of_def)
  ultimately show ?thesis by blast
qed

theorem factorial_index_of_non_factorial_witness:
  "reachable facts_init \<and> (\<forall>k. (7::int) \<noteq> fact k) \<and>
   (\<exists>facts'. factorial_index_of facts_init 7 = returns ((False, None), facts')) \<and>
   (0::int) < 1 \<and> factorial_index_of facts_init 0 = returns ((False, None), facts_init)"
proof -
  have nf: "\<forall>k. (7::int) \<noteq> fact k"
    using not_fact_between[of 3 7] by (simp add: fact_numeral numeral_3_eq_3)
  show ?thesis
    using factorial_index_of_non_factorial[OF reachable.init, of 7]
      factorial_index_of_non_factorial[OF reachable.init, of 0] nf reachable.init
    by simp
qed

text \<open>
  Claim C3 asks for one index \<open>k\<close> that every call \<open>factorial_index_of(1)\<close> returns.
  Three calls in a row from the initial table show two: \<open>0\<close> on the table \<open>[1, 1]\<close>, and
  \<open>1\<close> on the table \<open>[1, 1, 2]\<close> that the call with \<open>x = 2\<close> leaves.
\<close>

theorem one_index_not_fixed:
  "factorial_index_of facts_init 1 = returns ((True, Some 0), facts_init) \<and>
   factorial_index_of facts_init 2 = returns ((True, Some 2), [1, 1, 2]) \<and>
   factorial_index_of [1, 1, 2] 1 = returns ((True, Some 1), [1, 1, 2])"
  by (simp add: factorial_index_of_def facts_init_def extend_factorials_until_ge.simps
      py_index_def bsearch.simps returns_def)

text \<open>
  Claim C3, as the code has it. On every table the program can hold,
  \<open>factorial_index_of(1)\<close> returns \<open>(True, k)\<close> with \<open>k\<close> either \<open>0\<close> or \<open>1\<close>, and leaves the
  table as it is; which of the two depends on the length of the table.
\<close>

theorem one_index_zero_or_one:
  "reachable facts \<Longrightarrow>
   \<exists>k. (k = 0 \<or> k = 1) \<and> factorial_index_of facts 1 = returns ((True, Some k), facts)"
proof -
  assume "reachable facts"
  from reachable_ftable[OF this] obtain m where m: "1 \<le> m" "facts = ftable (Suc m)" by blast
  from factorial_index_of_ftable[OF m(1), of 1] obtain m' ok k where r:
    "factorial_index_of (ftable (Suc m)) 1 = returns ((ok, k), ftable (Suc m'))"
    "if \<exists>j. (1::int) = fact j then ok \<and> (\<exists>j. k = Some (int j) \<and> (1::int) = fact j) else \<not> ok \<and> k = None"
    "(1::int) \<le> fact m \<longrightarrow> m' = m" by blast
  have "\<exists>j. (1::int) = fact j" by (rule exI[of _ 0]) simp
  with r(2) obtain j where j: "ok" "k = Some (int j)" "(1::int) = fact j" by auto
  have "j < 2"
  proof (rule ccontr)
    assume "\<not> j < 2"
    then have "j = 0" using fact_eq_int[of j 0] j(3) by simp
    with \<open>\<not> j < 2\<close> show False by simp
  qed
  then have "int j = 0 \<or> int j = 1" by auto
  moreover have "m' = m" using r(3) by simp
  ultimately show ?thesis using r(1) j(1,2) m(2) by auto
qed

theorem one_index_zero_or_one_witness:
  "reachable facts_init \<and>
   (\<exists>k. (k = 0 \<or> k = 1) \<and> factorial_index_of facts_init 1 = returns ((True, Some k), facts_init))"
  using one_index_zero_or_one[OF reachable.init] reachable.init by simp

text \<open>
  Claim C8. After any sequence of calls of \<open>extend_factorials_until_ge\<close> the entry at
  index \<open>k\<close> is \<open>k!\<close>, the table is non-decreasing and strictly increasing from index
  \<open>2\<close> on; a further call returns, keeps the old table as a prefix of the new one, and a
  second call with the same bound changes nothing.
\<close>

theorem table_invariant:
  "reachable facts \<Longrightarrow>
   (\<forall>k < length facts. facts ! k = fact k) \<and>
   sorted facts \<and>
   (\<forall>i j. 2 \<le> i \<and> i < j \<and> j < length facts \<longrightarrow> facts ! i < facts ! j) \<and>
   (\<forall>x. \<exists>facts'. extend_factorials_until_ge facts x = Some (Inr facts') \<and>
          reachable facts' \<and> prefix facts facts' \<and>
          extend_factorials_until_ge facts' x = Some (Inr facts'))"
proof -
  assume "reachable facts"
  from reachable_ftable[OF this] obtain m where m: "1 \<le> m" "facts = ftable (Suc m)" by blast
  have a: "\<forall>k < length facts. facts ! k = fact k" using m(2) by simp
  have b: "sorted facts" using m(2) sorted_ftable by simp
  have c: "\<forall>i j. 2 \<le> i \<and> i < j \<and> j < length facts \<longrightarrow> facts ! i < facts ! j"
    using m(2) by (auto intro!: fact_less_mono)
  have d: "\<exists>facts'. extend_factorials_until_ge facts x = Some (Inr facts') \<and>
          reachable facts' \<and> prefix facts facts' \<and>
          extend_factorials_until_ge facts' x = Some (Inr facts')" for x
  proof -
    from extend_ftable[of m x] obtain m' where m': "m \<le> m'"
      "extend_factorials_until_ge (ftable (Suc m)) x = Some (Inr (ftable (Suc m')))"
      "x \<le> fact m'" by blast
    have "extend_factorials_until_ge (ftable (Suc m')) x = Some (Inr (ftable (Suc m')))"
      using m'(3) by (subst extend_ftable_step) simp
    moreover have "reachable (ftable (Suc m'))" using m(1) m'(1) by (intro ftable_reachable) simp
    moreover have "prefix facts (ftable (Suc m'))" using m(2) m'(1) by (simp add: prefix_ftable)
    ultimately show ?thesis using m'(2) m(2) by blast
  qed
  from a b c d show ?thesis by blast
qed

theorem table_invariant_witness:
  "reachable [1, 1, 2, 6] \<and>
   [1, 1, 2, 6 :: int] ! 3 = fact 3 \<and>
   sorted [1, 1, 2, 6 :: int] \<and>
   [1, 1, 2, 6 :: int] ! 2 < [1, 1, 2, 6 :: int] ! 3 \<and>
   (\<exists>facts'. extend_factorials_until_ge [1, 1, 2, 6] 100 = Some (Inr facts') \<and>
          reachable facts' \<and> prefix [1, 1, 2, 6] facts' \<and>
          extend_factorials_until_ge facts' 100 = Some (Inr facts'))"
proof -
  have r: "reachable [1, 1, 2, 6]"
    using reachable.step[OF reachable.init extend_facts_init_6] .
  note t = table_invariant[OF r]
  have a: "[1, 1, 2, 6 :: int] ! 3 = fact 3" using t by (simp add: fact_numeral)
  have b: "sorted [1, 1, 2, 6 :: int]" using t by simp
  have c: "[1, 1, 2, 6 :: int] ! 2 < [1, 1, 2, 6 :: int] ! 3" using t by simp
  have d: "\<exists>facts'. extend_factorials_until_ge [1, 1, 2, 6] 100 = Some (Inr facts') \<and>
          reachable facts' \<and> prefix [1, 1, 2, 6] facts' \<and>
          extend_factorials_until_ge facts' 100 = Some (Inr facts')"
    using t by blast
  from r a b c d show ?thesis by blast
qed

section \<open>Properties of the searches\<close>

text \<open>
  Claim C9. From every table the program can hold, \<open>search_pf\<close> and \<open>search_bf\<close> return,
  and any record of the list returned is strictly below every later one in the
  lexicographic order on \<open>(n, r)\<close>; so \<open>n\<close> never decreases along the list and \<open>r\<close>
  increases strictly among the records of one \<open>n\<close>.
\<close>

theorem search_output_ordered:
  "reachable facts \<Longrightarrow>
   (\<exists>recs facts'. search_pf facts n_max include_trivial include_pf_f3 = returns (recs, facts') \<and>
      sorted_wrt (\<lambda>a b. pf_n a < pf_n b \<or> (pf_n a = pf_n b \<and> pf_r a < pf_r b)) recs \<and>
      sorted (map pf_n recs)) \<and>
   (\<exists>recs facts'. search_bf facts n_max include_trivial = returns (recs, facts') \<and>
      sorted_wrt (\<lambda>a b. bf_n a < bf_n b \<or> (bf_n a = bf_n b \<and> bf_r a < bf_r b)) recs \<and>
      sorted (map bf_n recs))"
proof -
  assume r: "reachable facts"
  from search_pf_reachable[OF r, of n_max include_trivial include_pf_f3]
  obtain facts1 recs1 where p: "search_pf facts n_max include_trivial include_pf_f3 = returns (recs1, facts1)"
    "pf_traces include_trivial include_pf_f3 [0..n_max] recs1" by blast
  have s1: "sorted_wrt (\<lambda>a b. pf_n a < pf_n b \<or> (pf_n a = pf_n b \<and> pf_r a < pf_r b)) recs1"
    using pf_traces_sorted[OF p(2) strict_upto] .
  have "sorted_wrt (\<lambda>a b. pf_n a \<le> pf_n b) recs1"
    by (rule sorted_wrt_mono_rel[OF _ s1]) auto
  then have m1: "sorted (map pf_n recs1)" by (simp add: sorted_map)
  from search_bf_reachable[OF r, of n_max include_trivial]
  obtain facts2 recs2 where b: "search_bf facts n_max include_trivial = returns (recs2, facts2)"
    "bf_traces include_trivial [0..n_max] recs2" by blast
  have s2: "sorted_wrt (\<lambda>a b. bf_n a < bf_n b \<or> (bf_n a = bf_n b \<and> bf_r a < bf_r b)) recs2"
    using bf_traces_sorted[OF b(2) strict_upto] .
  have "sorted_wrt (\<lambda>a b. bf_n a \<le> bf_n b) recs2"
    by (rule sorted_wrt_mono_rel[OF _ s2]) auto
  then have m2: "sorted (map bf_n recs2)" by (simp add: sorted_map)
  from p(1) s1 m1 b(1) s2 m2 show ?thesis by blast
qed

theorem search_output_ordered_witness:
  "reachable facts_init \<and>
   (\<exists>recs facts'. search_pf facts_init 6 True True = returns (recs, facts') \<and>
      sorted_wrt (\<lambda>a b. pf_n a < pf_n b \<or> (pf_n a = pf_n b \<and> pf_r a < pf_r b)) recs \<and>
      sorted (map pf_n recs)) \<and>
   (\<exists>recs facts'. search_bf facts_init 6 True = returns (recs, facts') \<and>
      sorted_wrt (\<lambda>a b. bf_n a < bf_n b \<or> (bf_n a = bf_n b \<and> bf_r a < bf_r b)) recs \<and>
      sorted (map bf_n recs))"
  using search_output_ordered[OF reachable.init, of 6 True True] reachable.init by simp



text \<open>
  Claim C6. With \<open>n_max \<ge> 6\<close> and \<open>include_pf_f3\<close> true, from every table the program can
  hold and for either value of \<open>include_trivial\<close>, the list \<open>search_pf\<close> returns contains the
  record \<open>(6, 3, 5)\<close> tagged \<open>PF_F3\<close>.
\<close>

theorem search_pf_finds_6_3_5:
  "reachable facts \<Longrightarrow> 6 \<le> n_max \<Longrightarrow>
   \<exists>recs facts'. search_pf facts n_max include_trivial True = returns (recs, facts') \<and>
     \<lparr>pf_n = 6, pf_r = 3, pf_c = 5, pf_cls = ''PF_F3''\<rparr> \<in> set recs"
proof -
  assume r: "reachable facts" and n: "6 \<le> n_max"
  from search_pf_reachable[OF r, of n_max include_trivial True]
  obtain facts' recs where p: "search_pf facts n_max include_trivial True = returns (recs, facts')"
    "pf_traces include_trivial True [0..n_max] recs" by blast
  have "6 \<in> set [0..n_max]" using n by simp
  from pf_traces_member[OF p(2) this] obtain seg where
    seg: "pf_trace include_trivial True 6 [0..6] 1 seg" "set seg \<subseteq> set recs" by blast
  from seg(1) have "pf_trace include_trivial True 6 [0, 1, 2, 3, 4, 5, 6] 1 seg"
    by (simp only: upto_0_6)
  from pf_trace_tail[OF this] obtain s1 where
    s1: "pf_trace include_trivial True 6 [1, 2, 3, 4, 5, 6] 1 s1" "set s1 \<subseteq> set seg"
    by (auto simp: pf_prod_def)
  from pf_trace_tail[OF s1(1)] obtain s2 where
    s2: "pf_trace include_trivial True 6 [2, 3, 4, 5, 6] 6 s2" "set s2 \<subseteq> set s1"
    by (auto simp: pf_prod_def)
  from pf_trace_tail[OF s2(1)] obtain s3 where
    s3: "pf_trace include_trivial True 6 [3, 4, 5, 6] 30 s3" "set s3 \<subseteq> set s2"
    by (auto simp: pf_prod_def)
  have "pf_prod 6 3 30 = fact 5" by (simp add: pf_prod_def fact_numeral)
  from pf_trace_head[OF s3(1) this] have "set (pf_emit include_trivial True 6 3 (int 5)) \<subseteq> set s3"
    by simp
  then have "\<lparr>pf_n = 6, pf_r = 3, pf_c = 5, pf_cls = ''PF_F3''\<rparr> \<in> set s3"
    by (simp add: pf_emit_6_3_5)
  with s3(2) s2(2) s1(2) seg(2) have "\<lparr>pf_n = 6, pf_r = 3, pf_c = 5, pf_cls = ''PF_F3''\<rparr> \<in> set recs"
    by blast
  with p(1) show ?thesis by blast
qed

theorem search_pf_finds_6_3_5_witness:
  "reachable facts_init \<and> (6::int) \<le> 6 \<and>
   (\<exists>recs facts'. search_pf facts_init 6 True True = returns (recs, facts') \<and>
     \<lparr>pf_n = 6, pf_r = 3, pf_c = 5, pf_cls = ''PF_F3''\<rparr> \<in> set recs)"
  using search_pf_finds_6_3_5[OF reachable.init, of 6 True] reachable.init by simp

text \<open>
  Claim C10. With \<open>n_max \<ge> 4\<close>, from every table the program can hold and for either value
  of \<open>include_trivial\<close>, the list \<open>search_bf\<close> returns contains the record \<open>(4, 2, 3)\<close> tagged
  \<open>exceptional\<close>.
\<close>

theorem search_bf_finds_4_2_3:
  "reachable facts \<Longrightarrow> 4 \<le> n_max \<Longrightarrow>
   \<exists>recs facts'. search_bf facts n_max include_trivial = returns (recs, facts') \<and>
     \<lparr>bf_n = 4, bf_r = 2, bf_c = 3, bf_cls = ''exceptional''\<rparr> \<in> set recs"
proof -
  assume r: "reachable facts" and n: "4 \<le> n_max"
  from search_bf_reachable[OF r, of n_max include_trivial]
  obtain facts' recs where p: "search_bf facts n_max include_trivial = returns (recs, facts')"
    "bf_traces include_trivial [0..n_max] recs" by blast
  have "4 \<in> set [0..n_max]" using n by simp
  from bf_traces_member[OF p(2) this] obtain seg where
    seg: "bf_trace include_trivial 4 [0..4] seg" "set seg \<subseteq> set recs" by blast
  from seg(1) have "bf_trace include_trivial 4 [0, 1, 2, 3, 4] seg"
    by (simp only: upto_0_4)
  from bf_trace_tail[OF this] obtain s1 where
    s1: "bf_trace include_trivial 4 [1, 2, 3, 4] s1" "set s1 \<subseteq> set seg" by blast
  from bf_trace_tail[OF s1(1)] obtain s2 where
    s2: "bf_trace include_trivial 4 [2, 3, 4] s2" "set s2 \<subseteq> set s1" by blast
  have "int (nat 4 choose nat 2) = fact 3" by (simp add: fact_numeral numeral_eq_Suc)
  from bf_trace_head[OF s2(1) this] have "set (bf_emit include_trivial 4 2 (int 3)) \<subseteq> set s2"
    by simp
  then have "\<lparr>bf_n = 4, bf_r = 2, bf_c = 3, bf_cls = ''exceptional''\<rparr> \<in> set s2"
    by (simp add: bf_emit_4_2_3)
  with s2(2) s1(2) seg(2) have "\<lparr>bf_n = 4, bf_r = 2, bf_c = 3, bf_cls = ''exceptional''\<rparr> \<in> set recs"
    by blast
  with p(1) show ?thesis by blast
qed

theorem search_bf_finds_4_2_3_witness:
  "reachable facts_init \<and> (4::int) \<le> 4 \<and>
   (\<exists>recs facts'. search_bf facts_init 4 True = returns (recs, facts') \<and>
     \<lparr>bf_n = 4, bf_r = 2, bf_c = 3, bf_cls = ''exceptional''\<rparr> \<in> set recs)"
  using search_bf_finds_4_2_3[OF reachable.init, of 4 True] reachable.init by simp

text \<open>
  Claim C5 asks that two runs with the same arguments return the same list. A run reads
  the table the run before it left: from the initial table \<open>search_pf\<close> with \<open>n_max = 2\<close>
  reports \<open>c = 0\<close> for the value \<open>1\<close> and leaves the table \<open>[1, 1, 2]\<close>, and the same call
  again, from that table, reports \<open>c = 1\<close>. The same holds of \<open>search_bf\<close>.
\<close>

theorem second_run_differs:
  "search_pf facts_init 2 True True = returns
     ([\<lparr>pf_n = 0, pf_r = 0, pf_c = 0, pf_cls = ''trivial''\<rparr>,
       \<lparr>pf_n = 1, pf_r = 0, pf_c = 0, pf_cls = ''trivial''\<rparr>,
       \<lparr>pf_n = 1, pf_r = 1, pf_c = 0, pf_cls = ''trivial''\<rparr>,
       \<lparr>pf_n = 2, pf_r = 0, pf_c = 0, pf_cls = ''trivial''\<rparr>,
       \<lparr>pf_n = 2, pf_r = 1, pf_c = 2, pf_cls = ''trivial''\<rparr>,
       \<lparr>pf_n = 2, pf_r = 2, pf_c = 2, pf_cls = ''trivial''\<rparr>], [1, 1, 2]) \<and>
   search_pf [1, 1, 2] 2 True True = returns
     ([\<lparr>pf_n = 0, pf_r = 0, pf_c = 1, pf_cls = ''trivial''\<rparr>,
       \<lparr>pf_n = 1, pf_r = 0, pf_c = 1, pf_cls = ''trivial''\<rparr>,
       \<lparr>pf_n = 1, pf_r = 1, pf_c = 1, pf_cls = ''trivial''\<rparr>,
       \<lparr>pf_n = 2, pf_r = 0, pf_c = 1, pf_cls = ''trivial''\<rparr>,
       \<lparr>pf_n = 2, pf_r = 1, pf_c = 2, pf_cls = ''trivial''\<rparr>,
       \<lparr>pf_n = 2, pf_r = 2, pf_c = 2, pf_cls = ''trivial''\<rparr>], [1, 1, 2]) \<and>
   search_bf facts_init 2 True = returns
     ([\<lparr>bf_n = 0, bf_r = 0, bf_c = 0, bf_cls = ''trivial''\<rparr>,
       \<lparr>bf_n = 1, bf_r = 0, bf_c = 0, bf_cls = ''trivial''\<rparr>,
       \<lparr>bf_n = 1, bf_r = 1, bf_c = 0, bf_cls = ''trivial''\<rparr>,
       \<lparr>bf_n = 2, bf_r = 0, bf_c = 0, bf_cls = ''trivial''\<rparr>,
       \<lparr>bf_n = 2, bf_r = 1, bf_c = 2, bf_cls = ''trivial''\<rparr>,
       \<lparr>bf_n = 2, bf_r = 2, bf_c = 1, bf_cls = ''trivial''\<rparr>], [1, 1, 2]) \<and>
   search_bf [1, 1, 2] 2 True = returns
     ([\<lparr>bf_n = 0, bf_r = 0, bf_c = 1, bf_cls = ''trivial''\<rparr>,
       \<lparr>bf_n = 1, bf_r = 0, bf_c = 1, bf_cls = ''trivial''\<rparr>,
       \<lparr>bf_n = 1, bf_r = 1, bf_c = 1, bf_cls = ''trivial''\<rparr>,
       \<lparr>bf_n = 2, bf_r = 0, bf_c = 1, bf_cls = ''trivial''\<rparr>,
       \<lparr>bf_n = 2, bf_r = 1, bf_c = 2, bf_cls = ''trivial''\<rparr>,
       \<lparr>bf_n = 2, bf_r = 2, bf_c = 1, bf_cls = ''trivial''\<rparr>], [1, 1, 2]) \<and>
   map_result fst (search_pf facts_init 2 True True) \<noteq> map_result fst (search_pf [1, 1, 2] 2 True True) \<and>
   map_result fst (search_bf facts_init 2 True) \<noteq> map_result fst (search_bf [1, 1, 2] 2 True)"
  by (intro conjI; code_simp)

text \<open>
  Claim C5, as the code has it. Two runs with the same arguments, from any two tables the
  program can hold, both return; their lists have the same length and agree record by
  record, except that where both records are tagged \<open>trivial\<close> one may carry \<open>c = 0\<close> and the
  other \<open>c = 1\<close>.
\<close>

theorem runs_agree_up_to_tie:
  "reachable facts1 \<Longrightarrow> reachable facts2 \<Longrightarrow>
   (\<exists>recs1 recs2 t1 t2.
      search_pf facts1 n_max include_trivial include_pf_f3 = returns (recs1, t1) \<and>
      search_pf facts2 n_max include_trivial include_pf_f3 = returns (recs2, t2) \<and>
      list_all2 pf_sim recs1 recs2 \<and> (facts1 = facts2 \<longrightarrow> recs1 = recs2)) \<and>
   (\<exists>recs1 recs2 t1 t2.
      search_bf facts1 n_max include_trivial = returns (recs1, t1) \<and>
      search_bf facts2 n_max include_trivial = returns (recs2, t2) \<and>
      list_all2 bf_sim recs1 recs2 \<and> (facts1 = facts2 \<longrightarrow> recs1 = recs2))"
proof -
  assume r1: "reachable facts1" and r2: "reachable facts2"
  from search_pf_reachable[OF r1, of n_max include_trivial include_pf_f3]
  obtain t1 recs1 where p1: "search_pf facts1 n_max include_trivial include_pf_f3 = returns (recs1, t1)"
    "pf_traces include_trivial include_pf_f3 [0..n_max] recs1" by blast
  from search_pf_reachable[OF r2, of n_max include_trivial include_pf_f3]
  obtain t2 recs2 where p2: "search_pf facts2 n_max include_trivial include_pf_f3 = returns (recs2, t2)"
    "pf_traces include_trivial include_pf_f3 [0..n_max] recs2" by blast
  from search_bf_reachable[OF r1, of n_max include_trivial]
  obtain u1 brecs1 where b1: "search_bf facts1 n_max include_trivial = returns (brecs1, u1)"
    "bf_traces include_trivial [0..n_max] brecs1" by blast
  from search_bf_reachable[OF r2, of n_max include_trivial]
  obtain u2 brecs2 where b2: "search_bf facts2 n_max include_trivial = returns (brecs2, u2)"
    "bf_traces include_trivial [0..n_max] brecs2" by blast
  have pe: "facts1 = facts2 \<longrightarrow> recs1 = recs2"
    using p1(1) p2(1) by (auto dest: returns_inject)
  have be: "facts1 = facts2 \<longrightarrow> brecs1 = brecs2"
    using b1(1) b2(1) by (auto dest: returns_inject)
  from p1(1) p2(1) pf_traces_sim[OF p1(2) p2(2)] pe b1(1) b2(1) bf_traces_sim[OF b1(2) b2(2)] be
  show ?thesis by blast
qed

theorem runs_agree_up_to_tie_witness:
  "reachable facts_init \<and> reachable [1, 1, 2] \<and>
   (\<exists>recs1 recs2 t1 t2.
      search_pf facts_init 2 True True = returns (recs1, t1) \<and>
      search_pf [1, 1, 2] 2 True True = returns (recs2, t2) \<and>
      list_all2 pf_sim recs1 recs2) \<and>
   (\<exists>recs1 recs2 t1 t2.
      search_bf facts_init 2 True = returns (recs1, t1) \<and>
      search_bf [1, 1, 2] 2 True = returns (recs2, t2) \<and>
      list_all2 bf_sim recs1 recs2) \<and>
   (\<exists>recs1 recs2 t1 t2.
      search_pf [1, 1, 2] 2 True True = returns (recs1, t1) \<and>
      search_pf [1, 1, 2] 2 True True = returns (recs2, t2) \<and>
      list_all2 pf_sim recs1 recs2 \<and> recs1 = recs2)"
proof -
  note a = runs_agree_up_to_tie[OF reachable.init reachable_1_1_2, of 2 True True]
  note b = runs_agree_up_to_tie[OF reachable_1_1_2 reachable_1_1_2, of 2 True True]
  have 1: "\<exists>recs1 recs2 t1 t2.
      search_pf facts_init 2 True True = returns (recs1, t1) \<and>
      search_pf [1, 1, 2] 2 True True = returns (recs2, t2) \<and>
      list_all2 pf_sim recs1 recs2" using a by blast
  have 2: "\<exists>recs1 recs2 t1 t2.
      search_bf facts_init 2 True = returns (recs1, t1) \<and>
      search_bf [1, 1, 2] 2 True = returns (recs2, t2) \<and>
      list_all2 bf_sim recs1 recs2" using a by blast
  have 3: "\<exists>recs1 recs2 t1 t2.
      search_pf [1, 1, 2] 2 True True = returns (recs1, t1) \<and>
      search_pf [1, 1, 2] 2 True True = returns (recs2, t2) \<and>
      list_all2 pf_sim recs1 recs2 \<and> recs1 = recs2" using b by blast
  from reachable.init reachable_1_1_2 1 2 3 show ?thesis by blast
qed

text \<open>
  Claim C7. The list returned with \<open>include_trivial = False\<close> is the list returned with
  \<open>include_trivial = True\<close> without its records tagged \<open>trivial\<close>, the other records unchanged
  and in the same order; this holds of \<open>search_pf\<close> and of \<open>search_bf\<close>, whatever tables the
  two runs start from.
\<close>

theorem include_trivial_false_filters:
  "reachable facts1 \<Longrightarrow> reachable facts2 \<Longrightarrow>
   (\<exists>recsF recsT t1 t2.
      search_pf facts1 n_max False include_pf_f3 = returns (recsF, t1) \<and>
      search_pf facts2 n_max True include_pf_f3 = returns (recsT, t2) \<and>
      recsF = filter (\<lambda>x. pf_cls x \<noteq> ''trivial'') recsT) \<and>
   (\<exists>recsF recsT t1 t2.
      search_bf facts1 n_max False = returns (recsF, t1) \<and>
      search_bf facts2 n_max True = returns (recsT, t2) \<and>
      recsF = filter (\<lambda>x. bf_cls x \<noteq> ''trivial'') recsT)"
proof -
  assume r1: "reachable facts1" and r2: "reachable facts2"
  from search_pf_reachable[OF r1, of n_max False include_pf_f3]
  obtain t1 recs1 where p1: "search_pf facts1 n_max False include_pf_f3 = returns (recs1, t1)"
    "pf_traces False include_pf_f3 [0..n_max] recs1" by blast
  from search_pf_reachable[OF r2, of n_max True include_pf_f3]
  obtain t2 recs2 where p2: "search_pf facts2 n_max True include_pf_f3 = returns (recs2, t2)"
    "pf_traces True include_pf_f3 [0..n_max] recs2" by blast
  from search_bf_reachable[OF r1, of n_max False]
  obtain u1 brecs1 where b1: "search_bf facts1 n_max False = returns (brecs1, u1)"
    "bf_traces False [0..n_max] brecs1" by blast
  from search_bf_reachable[OF r2, of n_max True]
  obtain u2 brecs2 where b2: "search_bf facts2 n_max True = returns (brecs2, u2)"
    "bf_traces True [0..n_max] brecs2" by blast
  from p1(1) p2(1) pf_traces_filter[OF p1(2) p2(2)] b1(1) b2(1) bf_traces_filter[OF b1(2) b2(2)]
  show ?thesis by blast
qed

theorem include_trivial_false_filters_witness:
  "reachable facts_init \<and> reachable [1, 1, 2] \<and>
   (\<exists>recsF recsT t1 t2.
      search_pf facts_init 6 False True = returns (recsF, t1) \<and>
      search_pf [1, 1, 2] 6 True True = returns (recsT, t2) \<and>
      recsF = filter (\<lambda>x. pf_cls x \<noteq> ''trivial'') recsT) \<and>
   (\<exists>recsF recsT t1 t2.
      search_bf facts_init 6 False = returns (recsF, t1) \<and>
      search_bf [1, 1, 2] 6 True = returns (recsT, t2) \<and>
      recsF = filter (\<lambda>x. bf_cls x \<noteq> ''trivial'') recsT)"
  using include_trivial_false_filters[OF reachable.init reachable_1_1_2, of 6 True]
    reachable.init reachable_1_1_2 by simp

end
